theory Spec2Isabelle
  imports Complex_Main
begin

section \<open>Crypt Knight: the dungeon simulation engine of \<open>src/game/1.py\<close>\<close>

text \<open>
  A shallow embedding of the simulation core of the game: the entity model, experience and
  levelling, dungeon generation, the ray-cast field of view, melee resolution, the enemy turn,
  item pickup, item use and spell casting. Rendering, textures and audio are left out: they
  read simulation state and write none of it.

  Conventions of the embedding.
  \<^item> Python's unbounded integers are \<open>int\<close>; \<open>//\<close> is \<open>div\<close> (both round down).
  \<^item> A float is the rational number it denotes; an operation on floats is the exact
    operation followed by the rounding to the nearest double.
  \<^item> The module-level random generator is an oracle \<open>R :: nat \<Rightarrow> nat\<close> of raw draws and
    a cursor counting the draws made so far; every theorem holds for every oracle.
  \<^item> An exception is a value \<open>Inl e\<close> of a sum type; a loop that need not terminate is a
    \<^theory_text>\<open>partial_function\<close> in the option monad, where \<open>None\<close> means that the call
    never returns.
  \<^item> Message texts are Russian format strings in the source; the log holds them here as
    constructors of the datatype \<open>message\<close>, one per format string, with the values the
    string interpolates.
\<close>

subsection \<open>Constants and enumerations\<close>

definition MAP_WIDTH :: int where "MAP_WIDTH = 50"
definition MAP_HEIGHT :: int where "MAP_HEIGHT = 40"
definition ROOM_MIN_SIZE :: int where "ROOM_MIN_SIZE = 5"
definition ROOM_MAX_SIZE :: int where "ROOM_MAX_SIZE = 12"
definition MAX_ROOMS :: nat where "MAX_ROOMS = 15"
definition TILE_SIZE :: int where "TILE_SIZE = 32"

datatype TileType = WALL | FLOOR | STAIRS | DOOR

datatype ItemType =
  HEALTH_POTION | MANA_POTION | SWORD | SHIELD | ARMOR | RING
  | SCROLL_FIREBALL | SCROLL_TELEPORT | GOLD

datatype HeroClass = WARRIOR | MAGE | ROGUE | PALADIN

fun base_hp :: "HeroClass \<Rightarrow> int" where
  "base_hp WARRIOR = 120" | "base_hp MAGE = 70" | "base_hp ROGUE = 90" | "base_hp PALADIN = 100"

fun base_mana :: "HeroClass \<Rightarrow> int" where
  "base_mana WARRIOR = 30" | "base_mana MAGE = 100" | "base_mana ROGUE = 50"
| "base_mana PALADIN = 60"

fun base_attack :: "HeroClass \<Rightarrow> int" where
  "base_attack WARRIOR = 15" | "base_attack MAGE = 8" | "base_attack ROGUE = 12"
| "base_attack PALADIN = 12"

fun base_magic :: "HeroClass \<Rightarrow> int" where
  "base_magic WARRIOR = 8" | "base_magic MAGE = 15" | "base_magic ROGUE = 10"
| "base_magic PALADIN = 10"

fun base_defense :: "HeroClass \<Rightarrow> int" where
  "base_defense WARRIOR = 3" | "base_defense MAGE = 5" | "base_defense ROGUE = 4"
| "base_defense PALADIN = 4"

datatype GameState =
  MENU | CLASS_SELECT | TUTORIAL | PLAYING | INVENTORY | GAME_OVER | VICTORY | PAUSED

text \<open>
  The \<open>arcade.color\<close> constants that the simulation attaches to messages, effects and
  the enemies below.
\<close>

datatype color =
  White | Green | Blue | Purple | Orange | Red | Yellow | Gold | Gray | Cyan | LightCoral
  | LimeGreen | Crimson | Brown | DarkRed

text \<open>The exceptions the modelled code can raise.\<close>

datatype error = IndexError | ValueError | OverflowError

subsection \<open>Floats\<close>

text \<open>
  A Python float is an IEEE 754 double: a multiple of \<open>2\<^sup>-\<^sup>1\<^sup>0\<^sup>7\<^sup>4\<close> with a significand of at most
  53 bits. \<open>round_double\<close> rounds a rational to the nearest double, ties to the even
  significand: the number is scaled to units of \<open>2\<^sup>-\<^sup>1\<^sup>0\<^sup>7\<^sup>4\<close>, the bits of its integer part
  beyond the 53rd are dropped by rounding, and the result is scaled back. A result of
  magnitude \<open>2\<^sup>1\<^sup>0\<^sup>2\<^sup>4\<close> or more stands for an infinity.
\<close>

fun bit_length :: "nat \<Rightarrow> nat" where
  "bit_length n = (if n = 0 then 0 else Suc (bit_length (n div 2)))"

definition round_half_even :: "rat \<Rightarrow> int" where
  "round_half_even z =
     (let f = \<lfloor>z\<rfloor>; r = z - of_int f
      in if r < 1 / 2 then f else if 1 / 2 < r then f + 1 else if even f then f else f + 1)"

definition DBL_MANT_DIG :: nat where "DBL_MANT_DIG = 53"
definition DBL_MAX_EXP :: nat where "DBL_MAX_EXP = 1024"
definition DBL_DENORM_EXP :: nat where "DBL_DENORM_EXP = 1074"

definition round_double :: "rat \<Rightarrow> rat" where
  "round_double q =
     (let s = q * 2 ^ DBL_DENORM_EXP;
          j = bit_length (nat \<lfloor>\<bar>s\<bar>\<rfloor>) - DBL_MANT_DIG
      in of_int (2 ^ j * round_half_even (s / 2 ^ j)) / 2 ^ DBL_DENORM_EXP)"

definition is_inf :: "rat \<Rightarrow> bool" where
  "is_inf x \<longleftrightarrow> 2 ^ DBL_MAX_EXP \<le> \<bar>x\<bar>"

text \<open>
  The conversion of an integer to a float, as in \<open>float(n)\<close> and in the product of an
  integer with a float: it raises \<open>OverflowError\<close> when the integer is too large.
\<close>

definition to_double :: "int \<Rightarrow> error + rat" where
  "to_double n = (let f = round_double (of_int n) in if is_inf f then Inl OverflowError else Inr f)"

text \<open>
  \<open>int(x)\<close> on a float truncates towards zero, and raises \<open>OverflowError\<close> on an
  infinity; \<open>py_int\<close> is the truncation.
\<close>

definition py_int :: "rat \<Rightarrow> int" where
  "py_int q = (if 0 \<le> q then \<lfloor>q\<rfloor> else \<lceil>q\<rceil>)"

definition int_of_float :: "rat \<Rightarrow> error + int" where
  "int_of_float x = (if is_inf x then Inl OverflowError else Inr (py_int x))"

subsection \<open>The random source\<close>

text \<open>
  \<open>random.randint(a, b)\<close> returns an integer of \<open>[a, b]\<close> and raises \<open>ValueError\<close> on an
  empty range. \<open>randint_val\<close> is the value drawn at cursor \<open>c\<close> when the range is not empty;
  the code calls it directly where both bounds are literals.
\<close>

definition randint_val :: "(nat \<Rightarrow> nat) \<Rightarrow> nat \<Rightarrow> int \<Rightarrow> int \<Rightarrow> int" where
  "randint_val R c a b = a + int (R c mod nat (b - a + 1))"

definition randint :: "(nat \<Rightarrow> nat) \<Rightarrow> nat \<Rightarrow> int \<Rightarrow> int \<Rightarrow> error + (int \<times> nat)" where
  "randint R c a b = (if a \<le> b then Inr (randint_val R c a b, Suc c) else Inl ValueError)"

text \<open>
  \<open>random.random()\<close> returns a float of \<open>[0, 1)\<close>: a multiple of \<open>2\<^sup>-\<^sup>5\<^sup>3\<close>, held here as the
  rational it denotes.
\<close>

definition random_unit :: "(nat \<Rightarrow> nat) \<Rightarrow> nat \<Rightarrow> rat" where
  "random_unit R c = of_nat (R c mod 2 ^ 53) / 2 ^ 53"

text \<open>\<open>random.choice(seq)\<close> on a non-empty sequence.\<close>

definition random_choice :: "(nat \<Rightarrow> nat) \<Rightarrow> nat \<Rightarrow> 'a list \<Rightarrow> 'a" where
  "random_choice R c xs = xs ! (R c mod length xs)"

text \<open>Oracles for concrete runs: every draw is the least value, or a fixed raw value.\<close>

definition zero_rng :: "nat \<Rightarrow> nat" where
  "zero_rng n = 0"

definition const_rng :: "nat \<Rightarrow> nat \<Rightarrow> nat" where
  "const_rng k n = k"

subsection \<open>Rooms, items, enemies, the player\<close>

record Room =
  r_x :: int
  r_y :: int
  r_width :: int
  r_height :: int

definition center :: "Room \<Rightarrow> int \<times> int" where
  "center r = (r_x r + r_width r div 2, r_y r + r_height r div 2)"

definition inner :: "Room \<Rightarrow> int \<times> int \<times> int \<times> int" where
  "inner r = (r_x r + 1, r_y r + 1, r_x r + r_width r - 1, r_y r + r_height r - 1)"

definition intersects :: "Room \<Rightarrow> Room \<Rightarrow> bool" where
  "intersects r other \<longleftrightarrow>
     r_x r \<le> r_x other + r_width other + 1 \<and>
     r_x r + r_width r + 1 \<ge> r_x other \<and>
     r_y r \<le> r_y other + r_height other + 1 \<and>
     r_y r + r_height r + 1 \<ge> r_y other"

record Item =
  i_x :: int
  i_y :: int
  item_type :: ItemType
  i_name :: string
  i_value :: int
  rarity :: int

definition get_color :: "Item \<Rightarrow> color" where
  "get_color it =
     (if rarity it = 1 then White else if rarity it = 2 then Green
      else if rarity it = 3 then Blue else if rarity it = 4 then Purple
      else if rarity it = 5 then Orange else White)"

text \<open>
  An enemy's name is the name of its template or, for a boss, the format string
  \<open>f"... {self.dungeon_level} ..."\<close> with the level it interpolates.
\<close>

datatype enemy_name = TemplateName string | BossName int

record Enemy =
  e_x :: int
  e_y :: int
  e_name :: enemy_name
  e_hp :: int
  e_max_hp :: int
  e_attack :: int
  e_defense :: int
  exp_value :: int
  symbol :: string
  e_color :: color
  is_boss :: bool

definition enemy_is_alive :: "Enemy \<Rightarrow> bool" where
  "enemy_is_alive e \<longleftrightarrow> e_hp e > 0"

text \<open>
  The \<open>equipped\<close> dictionary has the four fixed keys \<open>weapon\<close>, \<open>armor\<close>, \<open>shield\<close> and
  \<open>ring\<close>, each holding an item or \<open>None\<close>: four optional fields.
\<close>

record Player =
  p_x :: int
  p_y :: int
  hero_class :: HeroClass
  p_hp :: int
  p_max_hp :: int
  p_mana :: int
  p_max_mana :: int
  p_attack :: int
  p_defense :: int
  p_magic :: int
  p_level :: int
  p_exp :: int
  p_exp_to_next :: int
  p_gold :: int
  inventory :: "Item list"
  eq_weapon :: "Item option"
  eq_armor :: "Item option"
  eq_shield :: "Item option"
  eq_ring :: "Item option"

text \<open>The dataclass defaults followed by \<open>__post_init__\<close>.\<close>

definition new_player :: "int \<Rightarrow> int \<Rightarrow> HeroClass \<Rightarrow> Player" where
  "new_player x y hc =
     \<lparr>p_x = x, p_y = y, hero_class = hc,
      p_hp = base_hp hc, p_max_hp = base_hp hc,
      p_mana = base_mana hc, p_max_mana = base_mana hc,
      p_attack = base_attack hc, p_defense = base_defense hc, p_magic = base_magic hc,
      p_level = 1, p_exp = 0, p_exp_to_next = 100, p_gold = 0, inventory = [],
      eq_weapon = None, eq_armor = None, eq_shield = None, eq_ring = None\<rparr>"

text \<open>
  \<open>int(self.exp_to_next * 1.5)\<close>: the threshold is converted to a float, the product with
  the float \<open>1.5\<close> is rounded to a double, and the double is truncated towards zero.
\<close>

definition int_times_1_5 :: "int \<Rightarrow> error + int" where
  "int_times_1_5 t =
     (case to_double t of Inl e \<Rightarrow> Inl e
      | Inr f \<Rightarrow> int_of_float (round_double (f * (3 / 2))))"

text \<open>
  \<open>level_up\<close>: the only statement that can raise is the second one, and nothing is
  drawn before it.
\<close>

definition level_up :: "(nat \<Rightarrow> nat) \<Rightarrow> Player \<Rightarrow> nat \<Rightarrow> error + (Player \<times> nat)" where
  "level_up R p c =
     (case int_times_1_5 (p_exp_to_next p) of Inl e \<Rightarrow> Inl e
      | Inr exp_to_next' \<Rightarrow>
     (let hp_gain = randint_val R c 5 15;
          mana_gain = randint_val R (c + 1) 3 10;
          max_hp' = p_max_hp p + hp_gain;
          max_mana' = p_max_mana p + mana_gain
      in Inr (p\<lparr>p_level := p_level p + 1,
                p_exp_to_next := exp_to_next',
                p_max_hp := max_hp',
                p_hp := min (p_hp p + hp_gain) max_hp',
                p_max_mana := max_mana',
                p_mana := min (p_mana p + mana_gain) max_mana',
                p_attack := p_attack p + randint_val R (c + 2) 1 3,
                p_defense := p_defense p + randint_val R (c + 3) 1 2,
                p_magic := p_magic p + randint_val R (c + 4) 1 3\<rparr>,
              c + 5)))"

text \<open>
  The \<open>while\<close> loop of \<open>gain_exp\<close>, on the player, the cursor and the flag \<open>leveled_up\<close>.
  With a threshold of 0 the loop never leaves, so it lives in the option monad: \<open>None\<close> is
  the call that does not return, \<open>Some (Inl e)\<close> the call that raises.
\<close>

partial_function (option) gain_exp_loop ::
  "(nat \<Rightarrow> nat) \<Rightarrow> Player \<Rightarrow> nat \<Rightarrow> bool \<Rightarrow> (error + (bool \<times> Player \<times> nat)) option" where
  "gain_exp_loop R p c leveled_up =
     (if p_exp p \<ge> p_exp_to_next p
      then (case level_up R (p\<lparr>p_exp := p_exp p - p_exp_to_next p\<rparr>) c of
              Inl e \<Rightarrow> Some (Inl e)
            | Inr (p', c') \<Rightarrow> gain_exp_loop R p' c' True)
      else Some (Inr (leveled_up, p, c)))"

definition gain_exp ::
  "(nat \<Rightarrow> nat) \<Rightarrow> Player \<Rightarrow> nat \<Rightarrow> int \<Rightarrow> (error + (bool \<times> Player \<times> nat)) option" where
  "gain_exp R p c amount = gain_exp_loop R (p\<lparr>p_exp := p_exp p + amount\<rparr>) c False"

definition get_total_attack :: "Player \<Rightarrow> int" where
  "get_total_attack p =
     p_attack p + (case eq_weapon p of None \<Rightarrow> 0 | Some w \<Rightarrow> i_value w)"

definition get_total_defense :: "Player \<Rightarrow> int" where
  "get_total_defense p =
     p_defense p + ((case eq_armor p of None \<Rightarrow> 0 | Some a \<Rightarrow> i_value a)
                  + (case eq_shield p of None \<Rightarrow> 0 | Some s \<Rightarrow> i_value s))"

definition player_is_alive :: "Player \<Rightarrow> bool" where
  "player_is_alive p \<longleftrightarrow> p_hp p > 0"

text \<open>
  What a call of \<open>gain_exp\<close> that returns leaves: the flag, the level, the experience, the
  threshold.
\<close>

definition exp_outcome ::
  "(error + (bool \<times> Player \<times> nat)) option \<Rightarrow> (bool \<times> int \<times> int \<times> int) option" where
  "exp_outcome r =
     (case r of Some (Inr (b, p, c)) \<Rightarrow> Some (b, p_level p, p_exp p, p_exp_to_next p)
      | _ \<Rightarrow> None)"

text \<open>
  The threshold as the specification words it: multiplied by 1.5 with integer truncation.
  Then the threshold after \<open>n\<close> level-ups, and the experience that \<open>n\<close> level-ups consume.
\<close>

definition truncated_1_5 :: "int \<Rightarrow> int" where
  "truncated_1_5 t = (if 0 \<le> t then (3 * t) div 2 else - ((3 * (- t)) div 2))"

definition threshold_after :: "int \<Rightarrow> nat \<Rightarrow> int" where
  "threshold_after t n = (truncated_1_5 ^^ n) t"

definition exp_consumed :: "int \<Rightarrow> nat \<Rightarrow> int" where
  "exp_consumed t n = (\<Sum>i<n. threshold_after t i)"

subsection \<open>Python list indexing\<close>

text \<open>
  \<open>xs[i]\<close>, \<open>xs[i] = v\<close> and \<open>xs.pop(i)\<close> resolve an index alike: one of \<open>[-len, 0)\<close> counts from the
  end, one outside \<open>[-len, len)\<close> raises \<open>IndexError\<close>.
\<close>

definition py_pos :: "nat \<Rightarrow> int \<Rightarrow> error + nat" where
  "py_pos n i =
     (if 0 \<le> i \<and> i < int n then Inr (nat i)
      else if - int n \<le> i \<and> i < 0 then Inr (nat (int n + i))
      else Inl IndexError)"

definition py_index :: "'a list \<Rightarrow> int \<Rightarrow> error + 'a" where
  "py_index xs i = (case py_pos (length xs) i of Inl e \<Rightarrow> Inl e | Inr k \<Rightarrow> Inr (xs ! k))"

definition py_store :: "'a list \<Rightarrow> int \<Rightarrow> 'a \<Rightarrow> error + 'a list" where
  "py_store xs i v = (case py_pos (length xs) i of Inl e \<Rightarrow> Inl e | Inr k \<Rightarrow> Inr (xs[k := v]))"

text \<open>A grid is a list of columns, each a list of its own: \<open>g[x][y]\<close> and \<open>g[x][y] = v\<close>.\<close>

definition grid_get :: "'a list list \<Rightarrow> int \<Rightarrow> int \<Rightarrow> error + 'a" where
  "grid_get g x y = (case py_index g x of Inl e \<Rightarrow> Inl e | Inr col \<Rightarrow> py_index col y)"

definition grid_set :: "'a list list \<Rightarrow> int \<Rightarrow> int \<Rightarrow> 'a \<Rightarrow> error + 'a list list" where
  "grid_set g x y v =
     (case py_index g x of Inl e \<Rightarrow> Inl e
      | Inr col \<Rightarrow> (case py_store col y v of Inl e \<Rightarrow> Inl e | Inr col' \<Rightarrow> py_store g x col'))"

subsection \<open>DungeonGenerator\<close>

record Dungeon =
  d_width :: int
  d_height :: int
  tiles :: "TileType list list"
  rooms :: "Room list"
  explored :: "bool list list"
  visible :: "bool list list"

text \<open>\<open>[[v for _ in range(height)] for _ in range(width)]\<close>\<close>

definition grid :: "int \<Rightarrow> int \<Rightarrow> 'a \<Rightarrow> 'a list list" where
  "grid w h v = replicate (nat w) (replicate (nat h) v)"

definition new_dungeon :: "int \<Rightarrow> int \<Rightarrow> Dungeon" where
  "new_dungeon w h =
     \<lparr>d_width = w, d_height = h, tiles = grid w h WALL, rooms = [],
      explored = grid w h False, visible = grid w h False\<rparr>"

text \<open>
  The guard \<open>0 <= x < self.width and 0 <= y < self.height\<close>. The constructor, \<open>generate\<close>
  and \<open>compute_fov\<close> allocate every grid with \<open>width\<close> columns of \<open>height\<close> cells
  (\<open>grids_ok\<close> below, shown at the end of the theory), so a read or write under this guard
  is in range; \<open>get_cell\<close> and \<open>set_cell\<close> are those guarded accesses.
\<close>

definition in_bounds :: "Dungeon \<Rightarrow> int \<Rightarrow> int \<Rightarrow> bool" where
  "in_bounds d x y \<longleftrightarrow> 0 \<le> x \<and> x < d_width d \<and> 0 \<le> y \<and> y < d_height d"

definition get_cell :: "'a list list \<Rightarrow> int \<Rightarrow> int \<Rightarrow> 'a" where
  "get_cell g x y = g ! nat x ! nat y"

definition set_cell :: "'a list list \<Rightarrow> int \<Rightarrow> int \<Rightarrow> 'a \<Rightarrow> 'a list list" where
  "set_cell g x y v = g[nat x := (g ! nat x)[nat y := v]]"

definition grid_dims :: "'a list list \<Rightarrow> int \<Rightarrow> int \<Rightarrow> bool" where
  "grid_dims g w h \<longleftrightarrow> int (length g) = max 0 w \<and> list_all (\<lambda>col. int (length col) = max 0 h) g"

definition grids_ok :: "Dungeon \<Rightarrow> bool" where
  "grids_ok d \<longleftrightarrow>
     grid_dims (tiles d) (d_width d) (d_height d) \<and>
     grid_dims (explored d) (d_width d) (d_height d) \<and>
     grid_dims (visible d) (d_width d) (d_height d)"

text \<open>The assignment \<open>self.tiles[x][y] = TileType.FLOOR\<close> under the guard.\<close>

definition carve :: "Dungeon \<Rightarrow> int \<Rightarrow> int \<Rightarrow> Dungeon" where
  "carve d x y = (if in_bounds d x y then d\<lparr>tiles := set_cell (tiles d) x y FLOOR\<rparr> else d)"

definition create_room :: "Dungeon \<Rightarrow> Room \<Rightarrow> Dungeon" where
  "create_room d room =
     (case inner room of (x1, y1, x2, y2) \<Rightarrow>
        fold (\<lambda>x d'. fold (\<lambda>y d''. carve d'' x y) [y1..y2 - 1] d') [x1..x2 - 1] d)"

definition create_h_tunnel :: "Dungeon \<Rightarrow> int \<Rightarrow> int \<Rightarrow> int \<Rightarrow> Dungeon" where
  "create_h_tunnel d x1 x2 y = fold (\<lambda>x d'. carve d' x y) [min x1 x2..max x1 x2] d"

definition create_v_tunnel :: "Dungeon \<Rightarrow> int \<Rightarrow> int \<Rightarrow> int \<Rightarrow> Dungeon" where
  "create_v_tunnel d y1 y2 x = fold (\<lambda>y d'. carve d' x y) [min y1 y2..max y1 y2] d"

text \<open>
  One pass of the \<open>for _ in range(MAX_ROOMS)\<close> loop of \<open>generate\<close>: four draws for the
  candidate, the padded intersection test, the carving, the corridor to the previous room
  (one more draw for its orientation) and the append.
\<close>

definition try_room :: "(nat \<Rightarrow> nat) \<Rightarrow> Dungeon \<Rightarrow> nat \<Rightarrow> error + (Dungeon \<times> nat)" where
  "try_room R d c =
     (let w = randint_val R c ROOM_MIN_SIZE ROOM_MAX_SIZE;
          h = randint_val R (c + 1) ROOM_MIN_SIZE ROOM_MAX_SIZE
      in case randint R (c + 2) 1 (d_width d - w - 2) of Inl e \<Rightarrow> Inl e
         | Inr (x, c3) \<Rightarrow>
        (case randint R c3 1 (d_height d - h - 2) of Inl e \<Rightarrow> Inl e
         | Inr (y, c4) \<Rightarrow>
        (let new_room = \<lparr>r_x = x, r_y = y, r_width = w, r_height = h\<rparr>
         in if \<not> list_ex (intersects new_room) (rooms d)
            then (let d1 = create_room d new_room
                  in if rooms d1 \<noteq> []
                     then (case (center (last (rooms d1)), center new_room) of
                             ((px, py), (nx, ny)) \<Rightarrow>
                               (let d2 = (if random_unit R c4 < 1 / 2
                                          then create_v_tunnel (create_h_tunnel d1 px nx py) py ny nx
                                          else create_h_tunnel (create_v_tunnel d1 py ny px) px nx ny)
                                in Inr (d2\<lparr>rooms := rooms d2 @ [new_room]\<rparr>, Suc c4)))
                     else Inr (d1\<lparr>rooms := rooms d1 @ [new_room]\<rparr>, c4))
            else Inr (d, c4))))"

fun place_rooms :: "(nat \<Rightarrow> nat) \<Rightarrow> nat \<Rightarrow> Dungeon \<Rightarrow> nat \<Rightarrow> error + (Dungeon \<times> nat)" where
  "place_rooms R 0 d c = Inr (d, c)"
| "place_rooms R (Suc n) d c =
     (case try_room R d c of Inl e \<Rightarrow> Inl e | Inr (d', c') \<Rightarrow> place_rooms R n d' c')"

text \<open>
  \<open>generate\<close> returns the spawn position; the model returns it with the dungeon and the
  cursor. The last assignment, \<open>self.tiles[cx][cy] = TileType.STAIRS\<close>, is not guarded.
  The argument \<open>dungeon_level\<close> is not used by the source.
\<close>

definition generate ::
  "(nat \<Rightarrow> nat) \<Rightarrow> Dungeon \<Rightarrow> int \<Rightarrow> nat \<Rightarrow> error + ((int \<times> int) \<times> Dungeon \<times> nat)" where
  "generate R d dungeon_level c =
     (let d0 = d\<lparr>tiles := grid (d_width d) (d_height d) WALL, rooms := []\<rparr>
      in case place_rooms R MAX_ROOMS d0 c of Inl e \<Rightarrow> Inl e
         | Inr (d1, c1) \<Rightarrow>
        (case (if rooms d1 \<noteq> []
               then (case center (last (rooms d1)) of (cx, cy) \<Rightarrow>
                       (case grid_set (tiles d1) cx cy STAIRS of Inl e \<Rightarrow> Inl e
                        | Inr t \<Rightarrow> Inr (d1\<lparr>tiles := t\<rparr>)))
               else Inr d1) of
           Inl e \<Rightarrow> Inl e
         | Inr d2 \<Rightarrow>
             Inr (if rooms d2 \<noteq> [] then center (hd (rooms d2))
                  else (d_width d2 div 2, d_height d2 div 2),
                  d2, c1)))"

definition is_walkable :: "Dungeon \<Rightarrow> int \<Rightarrow> int \<Rightarrow> bool" where
  "is_walkable d x y \<longleftrightarrow>
     (if in_bounds d x y then get_cell (tiles d) x y \<in> set [FLOOR, STAIRS, DOOR] else False)"

subsection \<open>Field of view\<close>

text \<open>
  The ray directions \<open>math.cos(rad)\<close> and \<open>math.sin(rad)\<close> are floats of \<open>[-1, 1]\<close>. The
  table \<open>T\<close> gives, for each integer degree, the two numbers they denote, and stays a
  parameter: their values depend on the platform's mathematical library, and no theorem
  below depends on more than their range.
\<close>

typedef unit_float = "{q :: rat. - 1 \<le> q \<and> q \<le> 1}"
  by (rule exI[of _ 0]) simp

setup_lifting type_definition_unit_float

lift_definition float_zero :: unit_float is 0
  by simp

lift_definition float_one :: unit_float is 1
  by simp

type_synonym trig = "nat \<Rightarrow> unit_float \<times> unit_float"

text \<open>
  The inner loop, with the number of passes left. The position \<open>(x, y)\<close> is a pair of
  floats, and \<open>x += dx\<close> is a float addition.
\<close>

fun cast_ray :: "Dungeon \<Rightarrow> rat \<Rightarrow> rat \<Rightarrow> rat \<Rightarrow> rat \<Rightarrow> nat \<Rightarrow> error + Dungeon" where
  "cast_ray d x y dx dy 0 = Inr d"
| "cast_ray d x y dx dy (Suc n) =
     (case int_of_float x of Inl e \<Rightarrow> Inl e
      | Inr ix \<Rightarrow>
     (case int_of_float y of Inl e \<Rightarrow> Inl e
      | Inr iy \<Rightarrow>
        if in_bounds d ix iy
        then (let d' = d\<lparr>visible := set_cell (visible d) ix iy True,
                         explored := set_cell (explored d) ix iy True\<rparr>
              in if get_cell (tiles d') ix iy = WALL then Inr d'
                 else cast_ray d' (round_double (x + dx)) (round_double (y + dy)) dx dy n)
        else Inr d))"

text \<open>One pass of the loop \<open>for angle in range(360)\<close>.\<close>

definition cast_angle :: "trig \<Rightarrow> int \<Rightarrow> int \<Rightarrow> int \<Rightarrow> nat \<Rightarrow> Dungeon \<Rightarrow> error + Dungeon" where
  "cast_angle T player_x player_y radius angle d =
     (case T angle of (dx, dy) \<Rightarrow>
        (case to_double player_x of Inl e \<Rightarrow> Inl e
         | Inr x \<Rightarrow>
        (case to_double player_y of Inl e \<Rightarrow> Inl e
         | Inr y \<Rightarrow> cast_ray d x y (Rep_unit_float dx) (Rep_unit_float dy) (nat radius))))"

definition compute_fov :: "trig \<Rightarrow> Dungeon \<Rightarrow> int \<Rightarrow> int \<Rightarrow> int \<Rightarrow> error + Dungeon" where
  "compute_fov T d player_x player_y radius =
     fold (\<lambda>angle r. case r of Inl e \<Rightarrow> Inl e
                      | Inr d' \<Rightarrow> cast_angle T player_x player_y radius angle d')
          [0..<360]
          (Inr (d\<lparr>visible := grid (d_width d) (d_height d) False\<rparr>))"

text \<open>The default \<open>radius=8\<close> of \<open>compute_fov\<close>.\<close>

definition fov_radius :: int where
  "fov_radius = 8"

text \<open>A direction table for concrete runs: every ray points along the first axis.\<close>

definition axis_trig :: trig where
  "axis_trig a = (float_one, float_zero)"

subsection \<open>The game: message log, occupancy\<close>

text \<open>One constructor per format string of the source, in the order of their first use.\<close>

datatype message =
  MsgCrit enemy_name int
  | MsgHit enemy_name int
  | MsgDefeated enemy_name int
  | MsgLevelUp int
  | MsgGold int
  | MsgEnemyHit enemy_name int
  | MsgYouDied
  | MsgPickedUp string
  | MsgInventoryFull
  | MsgHealed int
  | MsgManaRestored int
  | MsgScrollFireball int
  | MsgTeleport
  | MsgEquipped string
  | MsgSpellHeal int
  | MsgNoMana
  | MsgSpellFireball int enemy_name
  | MsgSlain enemy_name
  | MsgNoTargets

text \<open>\<open>MessageLog.add\<close>, with the default \<open>max_messages=6\<close> that the game constructs it with.\<close>

definition max_messages :: nat where
  "max_messages = 6"

definition log_add :: "(message \<times> color) list \<Rightarrow> message \<times> color \<Rightarrow> (message \<times> color) list" where
  "log_add ms m = (let ms' = ms @ [m] in if length ms' > max_messages then tl ms' else ms')"

text \<open>A floating damage number: the text is \<open>f"-{damage}"\<close>, held as the damage.\<close>

record particle =
  pt_x :: int
  pt_y :: int
  pt_damage :: int
  pt_color :: color
  pt_life :: int

text \<open>
  The simulation state of \<open>DungeonRogue\<close>. The operations below run while a game is under
  way, when \<open>self.player\<close> and \<open>self.dungeon\<close> are set. \<open>rnd\<close> is the cursor of the random
  source.
\<close>

record Game =
  state :: GameState
  dungeon :: Dungeon
  player :: Player
  enemies :: "Enemy list"
  items :: "Item list"
  dungeon_level :: int
  max_dungeon_level :: int
  message_log :: "(message \<times> color) list"
  particle_effects :: "particle list"
  turn_count :: int
  selected_inventory_index :: int
  rnd :: nat

definition is_occupied :: "Game \<Rightarrow> int \<Rightarrow> int \<Rightarrow> bool" where
  "is_occupied g x y \<longleftrightarrow>
     (p_x (player g) = x \<and> p_y (player g) = y) \<or>
     list_ex (\<lambda>enemy. e_x enemy = x \<and> e_y enemy = y \<and> enemy_is_alive enemy) (enemies g)"

text \<open>The tiles that hold the player or a living enemy, and the invariant on them.\<close>

definition entity_tiles :: "Game \<Rightarrow> (int \<times> int) list" where
  "entity_tiles g =
     (p_x (player g), p_y (player g)) #
     map (\<lambda>e. (e_x e, e_y e)) (filter enemy_is_alive (enemies g))"

definition one_entity_per_tile :: "Game \<Rightarrow> bool" where
  "one_entity_per_tile g \<longleftrightarrow> distinct (entity_tiles g)"

subsection \<open>Melee: the player's attack\<close>

text \<open>
  \<open>attack_enemy(enemy)\<close>; the enemy object is the entry \<open>i\<close> of \<open>self.enemies\<close>. The call
  of \<open>gain_exp\<close> may raise, or not return.
\<close>

definition attack_enemy :: "(nat \<Rightarrow> nat) \<Rightarrow> Game \<Rightarrow> nat \<Rightarrow> (error + Game) option" where
  "attack_enemy R g i =
     (let enemy = enemies g ! i;
          c = rnd g;
          damage0 = max 1 (get_total_attack (player g) - e_defense enemy + randint_val R c (- 2) 2);
          crit = (random_unit R (c + 1) < 15 / 100);
          damage = (if crit then damage0 * 2 else damage0);
          enemy' = enemy\<lparr>e_hp := e_hp enemy - damage\<rparr>;
          g1 = g\<lparr>enemies := (enemies g)[i := enemy'],
                 message_log := log_add (message_log g)
                   (if crit then (MsgCrit (e_name enemy) damage, Orange)
                    else (MsgHit (e_name enemy) damage, White)),
                 particle_effects := particle_effects g @
                   [\<lparr>pt_x = e_x enemy * TILE_SIZE, pt_y = e_y enemy * TILE_SIZE,
                     pt_damage = damage, pt_color = (if crit then Orange else Red),
                     pt_life = 30\<rparr>],
                 rnd := c + 2\<rparr>
      in if \<not> enemy_is_alive enemy'
         then (let g2 = g1\<lparr>message_log := log_add (message_log g1)
                              (MsgDefeated (e_name enemy') (exp_value enemy'), Yellow)\<rparr>
               in case gain_exp R (player g2) (rnd g2) (exp_value enemy') of
                    None \<Rightarrow> None
                  | Some (Inl e) \<Rightarrow> Some (Inl e)
                  | Some (Inr (leveled, p', c')) \<Rightarrow>
                      (let g3 = g2\<lparr>player := p', rnd := c'\<rparr>;
                           g4 = (if leveled
                                 then g3\<lparr>message_log := log_add (message_log g3)
                                            (MsgLevelUp (p_level p'), Gold)\<rparr>
                                 else g3)
                       in if random_unit R c' < 4 / 10
                          then (let gold = randint_val R (c' + 1) 5 20 * dungeon_level g4
                                in Some (Inr (g4\<lparr>player := (player g4)\<lparr>p_gold := p_gold (player g4) + gold\<rparr>,
                                                 message_log := log_add (message_log g4) (MsgGold gold, Gold),
                                                 rnd := c' + 2\<rparr>)))
                          else Some (Inr (g4\<lparr>rnd := c' + 1\<rparr>))))
         else Some (Inr g1))"

subsection \<open>The enemy turn\<close>

text \<open>
  The step an enemy chooses (lines 809 to 826): towards the player on both axes, or with
  probability 0.3 a random cardinal step. Returns the target tile and the cursor.
\<close>

definition enemy_step :: "(nat \<Rightarrow> nat) \<Rightarrow> Game \<Rightarrow> Enemy \<Rightarrow> (int \<times> int) \<times> nat" where
  "enemy_step R g enemy =
     (let p = player g;
          dx = (if e_x enemy < p_x p then 1 else if e_x enemy > p_x p then - 1 else 0);
          dy = (if e_y enemy < p_y p then 1 else if e_y enemy > p_y p then - 1 else 0);
          c = rnd g
      in if random_unit R c < 3 / 10
         then (case random_choice R (c + 1) [(0, 1), (0, - 1), (1, 0), (- 1, 0)] of
                 (dx', dy') \<Rightarrow> ((e_x enemy + dx', e_y enemy + dy'), c + 2))
         else ((e_x enemy + dx, e_y enemy + dy), c + 1))"

text \<open>
  The body of the loop of \<open>_enemy_turn\<close> for the entry \<open>i\<close> of \<open>self.enemies\<close>. The read
  \<open>self.dungeon.visible[enemy.x][enemy.y]\<close> is not guarded.
\<close>

definition enemy_act :: "(nat \<Rightarrow> nat) \<Rightarrow> Game \<Rightarrow> nat \<Rightarrow> error + Game" where
  "enemy_act R g i =
     (let enemy = enemies g ! i
      in if \<not> enemy_is_alive enemy then Inr g
         else case grid_get (visible (dungeon g)) (e_x enemy) (e_y enemy) of
                Inl e \<Rightarrow> Inl e
              | Inr vis \<Rightarrow>
                  if \<not> vis then Inr g
                  else (case enemy_step R g enemy of
                     ((new_x, new_y), c1) \<Rightarrow>
                       if new_x = p_x (player g) \<and> new_y = p_y (player g)
                       then (let damage = max 1 (e_attack enemy - get_total_defense (player g)
                                                  + randint_val R c1 (- 2) 2);
                                 p' = (player g)\<lparr>p_hp := p_hp (player g) - damage\<rparr>;
                                 g1 = g\<lparr>player := p',
                                        message_log := log_add (message_log g)
                                          (MsgEnemyHit (e_name enemy) damage,
                                           if is_boss enemy then Red else LightCoral),
                                        particle_effects := particle_effects g @
                                          [\<lparr>pt_x = p_x p' * TILE_SIZE, pt_y = p_y p' * TILE_SIZE,
                                            pt_damage = damage, pt_color = Red, pt_life = 30\<rparr>],
                                        rnd := c1 + 1\<rparr>
                             in if \<not> player_is_alive p'
                                then Inr (g1\<lparr>state := GAME_OVER,
                                             message_log := log_add (message_log g1) (MsgYouDied, Red)\<rparr>)
                                else Inr g1)
                       else if is_walkable (dungeon g) new_x new_y \<and> \<not> is_occupied g new_x new_y
                       then Inr (g\<lparr>enemies := (enemies g)[i := enemy\<lparr>e_x := new_x, e_y := new_y\<rparr>],
                                   rnd := c1\<rparr>)
                       else Inr (g\<lparr>rnd := c1\<rparr>)))"

fun enemy_turn_loop :: "(nat \<Rightarrow> nat) \<Rightarrow> nat list \<Rightarrow> Game \<Rightarrow> error + Game" where
  "enemy_turn_loop R [] g = Inr g"
| "enemy_turn_loop R (i # js) g =
     (case enemy_act R g i of Inl e \<Rightarrow> Inl e | Inr g' \<Rightarrow> enemy_turn_loop R js g')"

definition enemy_turn :: "(nat \<Rightarrow> nat) \<Rightarrow> Game \<Rightarrow> error + Game" where
  "enemy_turn R g = enemy_turn_loop R [0..<length (enemies g)] g"

subsection \<open>Item pickup\<close>

text \<open>
  The first loop of \<open>_pickup_items\<close> carries the player, the log and \<open>items_to_remove\<close>;
  the second removes each collected item, \<open>list.remove\<close> taking the first equal entry.
\<close>

definition pickup_step ::
  "Item \<Rightarrow> Player \<times> (message \<times> color) list \<times> Item list
     \<Rightarrow> Player \<times> (message \<times> color) list \<times> Item list" where
  "pickup_step item s =
     (case s of (p, lg, items_to_remove) \<Rightarrow>
        if i_x item = p_x p \<and> i_y item = p_y p
        then (if item_type item = GOLD
              then (p\<lparr>p_gold := p_gold p + i_value item\<rparr>,
                    log_add lg (MsgGold (i_value item), Gold),
                    items_to_remove @ [item])
              else if length (inventory p) < 20
              then (p\<lparr>inventory := inventory p @ [item]\<rparr>,
                    log_add lg (MsgPickedUp (i_name item), get_color item),
                    items_to_remove @ [item])
              else (p, log_add lg (MsgInventoryFull, Red), items_to_remove))
        else (p, lg, items_to_remove))"

definition pickup_items :: "Game \<Rightarrow> Game" where
  "pickup_items g =
     (case fold pickup_step (items g) (player g, message_log g, []) of
        (p, lg, items_to_remove) \<Rightarrow>
          g\<lparr>player := p, message_log := lg, items := fold remove1 items_to_remove (items g)\<rparr>)"

subsection \<open>Using an item\<close>

text \<open>
  The loop of the fireball scroll over \<open>self.enemies\<close>, carrying the game and \<open>count\<close>;
  \<open>damage\<close> is computed once, before the loop. \<open>and\<close> reads the visible grid only for a
  living enemy.
\<close>

definition scroll_hit ::
  "(nat \<Rightarrow> nat) \<Rightarrow> int \<Rightarrow> nat \<Rightarrow> Game \<times> int \<Rightarrow> (error + Game \<times> int) option" where
  "scroll_hit R damage i s =
     (case s of (g, count) \<Rightarrow>
        (let enemy = enemies g ! i
         in if enemy_is_alive enemy
            then (case grid_get (visible (dungeon g)) (e_x enemy) (e_y enemy) of
                    Inl e \<Rightarrow> Some (Inl e)
                  | Inr vis \<Rightarrow>
                      if vis
                      then (let enemy' = enemy\<lparr>e_hp := e_hp enemy - damage\<rparr>;
                                g1 = g\<lparr>enemies := (enemies g)[i := enemy']\<rparr>
                            in if \<not> enemy_is_alive enemy'
                               then (case gain_exp R (player g1) (rnd g1) (exp_value enemy') of
                                       None \<Rightarrow> None
                                     | Some (Inl e) \<Rightarrow> Some (Inl e)
                                     | Some (Inr (leveled, p', c')) \<Rightarrow>
                                         Some (Inr (g1\<lparr>player := p', rnd := c'\<rparr>, count + 1)))
                               else Some (Inr (g1, count + 1)))
                      else Some (Inr (g, count)))
            else Some (Inr (g, count))))"

fun scroll_loop ::
  "(nat \<Rightarrow> nat) \<Rightarrow> int \<Rightarrow> nat list \<Rightarrow> Game \<times> int \<Rightarrow> (error + Game \<times> int) option" where
  "scroll_loop R damage [] s = Some (Inr s)"
| "scroll_loop R damage (i # js) s =
     (case scroll_hit R damage i s of
        None \<Rightarrow> None
      | Some (Inl e) \<Rightarrow> Some (Inl e)
      | Some (Inr s') \<Rightarrow> scroll_loop R damage js s')"

text \<open>
  The four equipment branches differ in the slot only: the old item of the slot, and the
  player with the new item in the slot.
\<close>

datatype slot = Weapon | Armor | Shield | Ring

fun slot_of :: "ItemType \<Rightarrow> slot option" where
  "slot_of SWORD = Some Weapon"
| "slot_of SHIELD = Some Shield"
| "slot_of ARMOR = Some Armor"
| "slot_of RING = Some Ring"
| "slot_of _ = None"

fun equipped :: "Player \<Rightarrow> slot \<Rightarrow> Item option" where
  "equipped p Weapon = eq_weapon p"
| "equipped p Armor = eq_armor p"
| "equipped p Shield = eq_shield p"
| "equipped p Ring = eq_ring p"

fun equip :: "Player \<Rightarrow> slot \<Rightarrow> Item \<Rightarrow> Player" where
  "equip p Weapon item = p\<lparr>eq_weapon := Some item\<rparr>"
| "equip p Armor item = p\<lparr>eq_armor := Some item\<rparr>"
| "equip p Shield item = p\<lparr>eq_shield := Some item\<rparr>"
| "equip p Ring item = p\<lparr>eq_ring := Some item\<rparr>"

text \<open>
  \<open>use_item(index)\<close>. The only guard is \<open>index >= len(inventory)\<close>; then
  \<open>inventory[index]\<close> and, in the branches, \<open>inventory.pop(index)\<close> resolve the index on the
  same list, to the position \<open>k\<close>. An item of type \<open>GOLD\<close> matches no branch. The fireball
  scroll may raise or not return (\<open>gain_exp\<close>) and reads the visible grid without a guard;
  the teleport scroll recomputes the field of view, which raises when a coordinate is too
  large for a float.
\<close>

definition use_item :: "(nat \<Rightarrow> nat) \<Rightarrow> trig \<Rightarrow> Game \<Rightarrow> int \<Rightarrow> (error + Game) option" where
  "use_item R T g index =
     (let p = player g; inv = inventory p
      in if index \<ge> int (length inv) then Some (Inr g)
         else case py_pos (length inv) index of
                Inl e \<Rightarrow> Some (Inl e)
              | Inr k \<Rightarrow>
         (let item = inv ! k; popped = take k inv @ drop (Suc k) inv
          in if item_type item = HEALTH_POTION
             then (let heal = i_value item + p_level p * 5
                   in Some (Inr (g\<lparr>player := p\<lparr>p_hp := min (p_hp p + heal) (p_max_hp p),
                                                inventory := popped\<rparr>,
                                    message_log := log_add (message_log g) (MsgHealed heal, Green)\<rparr>)))
             else if item_type item = MANA_POTION
             then (let restore = i_value item + p_level p * 3
                   in Some (Inr (g\<lparr>player := p\<lparr>p_mana := min (p_mana p + restore) (p_max_mana p),
                                                inventory := popped\<rparr>,
                                    message_log := log_add (message_log g)
                                      (MsgManaRestored restore, Blue)\<rparr>)))
             else if item_type item = SCROLL_FIREBALL
             then (case scroll_loop R (i_value item + p_magic p) [0..<length (enemies g)] (g, 0) of
                     None \<Rightarrow> None
                   | Some (Inl e) \<Rightarrow> Some (Inl e)
                   | Some (Inr (g1, count)) \<Rightarrow>
                       Some (Inr (g1\<lparr>player := (player g1)\<lparr>inventory := popped\<rparr>,
                                      message_log := log_add (message_log g1)
                                        (MsgScrollFireball count, Orange)\<rparr>)))
             else if item_type item = SCROLL_TELEPORT
             then (if rooms (dungeon g) \<noteq> []
                   then (case center (random_choice R (rnd g) (rooms (dungeon g))) of
                           (cx, cy) \<Rightarrow>
                             (case compute_fov T (dungeon g) cx cy fov_radius of
                                Inl e \<Rightarrow> Some (Inl e)
                              | Inr d' \<Rightarrow>
                                  Some (Inr (g\<lparr>player := p\<lparr>p_x := cx, p_y := cy, inventory := popped\<rparr>,
                                               dungeon := d',
                                               message_log := log_add (message_log g) (MsgTeleport, Cyan),
                                               rnd := Suc (rnd g)\<rparr>))))
                   else Some (Inr g))
             else (case slot_of (item_type item) of
                     Some sl \<Rightarrow>
                       (let old = equipped p sl;
                            p1 = (equip p sl item)\<lparr>inventory := popped\<rparr>;
                            p2 = (case old of None \<Rightarrow> p1
                                  | Some old_item \<Rightarrow> p1\<lparr>inventory := inventory p1 @ [old_item]\<rparr>)
                        in Some (Inr (g\<lparr>player := p2,
                                         message_log := log_add (message_log g)
                                           (MsgEquipped (i_name item), White)\<rparr>)))
                   | None \<Rightarrow> Some (Inr g))))"

subsection \<open>Casting a spell\<close>

text \<open>
  The search of \<open>cast_spell("fireball")\<close> for the closest living visible enemy: \<open>closest\<close>
  is the index of the enemy with its distance, \<open>None\<close> while \<open>min_dist\<close> is infinite.
\<close>

fun closest_loop :: "Game \<Rightarrow> nat list \<Rightarrow> (nat \<times> int) option \<Rightarrow> error + (nat \<times> int) option" where
  "closest_loop g [] closest = Inr closest"
| "closest_loop g (i # js) closest =
     (let enemy = enemies g ! i
      in if enemy_is_alive enemy
         then (case grid_get (visible (dungeon g)) (e_x enemy) (e_y enemy) of
                 Inl e \<Rightarrow> Inl e
               | Inr vis \<Rightarrow>
                   if vis
                   then (let dist = \<bar>e_x enemy - p_x (player g)\<bar> + \<bar>e_y enemy - p_y (player g)\<bar>
                         in if (case closest of None \<Rightarrow> True | Some (j, min_dist) \<Rightarrow> dist < min_dist)
                            then closest_loop g js (Some (i, dist))
                            else closest_loop g js closest)
                   else closest_loop g js closest)
         else closest_loop g js closest)"

definition cast_spell :: "(nat \<Rightarrow> nat) \<Rightarrow> Game \<Rightarrow> string \<Rightarrow> (error + Game) option" where
  "cast_spell R g spell_type =
     (let p = player g
      in if spell_type = ''heal''
         then (if p_mana p \<ge> 20
               then (let heal = 15 + p_magic p * 2
                     in Some (Inr (g\<lparr>player := p\<lparr>p_hp := min (p_hp p + heal) (p_max_hp p),
                                                  p_mana := p_mana p - 20\<rparr>,
                                      message_log := log_add (message_log g) (MsgSpellHeal heal, Green)\<rparr>)))
               else Some (Inr (g\<lparr>message_log := log_add (message_log g) (MsgNoMana, Red)\<rparr>)))
         else if spell_type = ''fireball''
         then (if p_mana p \<ge> 30
               then (let damage = 20 + p_magic p * 2
                     in case closest_loop g [0..<length (enemies g)] None of
                          Inl e \<Rightarrow> Some (Inl e)
                        | Inr None \<Rightarrow>
                            Some (Inr (g\<lparr>message_log := log_add (message_log g) (MsgNoTargets, Gray)\<rparr>))
                        | Inr (Some (i, min_dist)) \<Rightarrow>
                            (let closest = (enemies g ! i)\<lparr>e_hp := e_hp (enemies g ! i) - damage\<rparr>;
                                 g1 = g\<lparr>enemies := (enemies g)[i := closest],
                                        player := p\<lparr>p_mana := p_mana p - 30\<rparr>,
                                        message_log := log_add (message_log g)
                                          (MsgSpellFireball damage (e_name closest), Orange)\<rparr>
                             in if \<not> enemy_is_alive closest
                                then (case gain_exp R (player g1) (rnd g1) (exp_value closest) of
                                        None \<Rightarrow> None
                                      | Some (Inl e) \<Rightarrow> Some (Inl e)
                                      | Some (Inr (leveled, p', c')) \<Rightarrow>
                                          Some (Inr (g1\<lparr>player := p', rnd := c',
                                                        message_log := log_add (message_log g1)
                                                          (MsgSlain (e_name closest), Yellow)\<rparr>)))
                                else Some (Inr g1)))
               else Some (Inr (g\<lparr>message_log := log_add (message_log g) (MsgNoMana, Red)\<rparr>)))
         else Some (Inr g))"

subsection \<open>The boss of \<open>_spawn_enemies\<close>, and the inventory keys\<close>

text \<open>
  The last block of \<open>_spawn_enemies\<close> (lines 628 to 651), on the enemy list that the loop
  above it has filled: on every fifth level a boss is appended at the centre of the
  second-to-last room, or of the only room.
\<close>

definition spawn_boss :: "Game \<Rightarrow> Game" where
  "spawn_boss g =
     (if dungeon_level g mod 5 = 0 \<and> rooms (dungeon g) \<noteq> []
      then (let rs = rooms (dungeon g);
                boss_room = (if length rs > 1 then rs ! (length rs - 2) else last rs);
                lv = dungeon_level g
            in case center boss_room of (cx, cy) \<Rightarrow>
                 g\<lparr>enemies := enemies g @
                     [\<lparr>e_x = cx, e_y = cy, e_name = BossName lv,
                       e_hp = 150 + lv * 30, e_max_hp = 150 + lv * 30,
                       e_attack = 20 + lv * 3, e_defense = 10 + lv * 2,
                       exp_value = 200 + lv * 50, symbol = ''B'', e_color = Crimson,
                       is_boss = True\<rparr>]\<rparr>)
      else g)"

text \<open>
  The branch of \<open>on_key_press\<close> for the state \<open>INVENTORY\<close>: the keys move the selection,
  use the selected item, or close the inventory.
\<close>

datatype key = KEY_UP | KEY_DOWN | KEY_W | KEY_S | KEY_ENTER | KEY_ESCAPE | KEY_I | KEY_OTHER

definition on_key_press_inventory ::
  "(nat \<Rightarrow> nat) \<Rightarrow> trig \<Rightarrow> Game \<Rightarrow> key \<Rightarrow> (error + Game) option" where
  "on_key_press_inventory R T g k =
     (let sel = selected_inventory_index g
      in if k \<in> set [KEY_UP, KEY_W]
         then Some (Inr (g\<lparr>selected_inventory_index := max 0 (sel - 1)\<rparr>))
         else if k \<in> set [KEY_DOWN, KEY_S]
         then Some (Inr (g\<lparr>selected_inventory_index :=
                              min (int (length (inventory (player g))) - 1) (sel + 1)\<rparr>))
         else if k = KEY_ENTER
         then (case use_item R T g sel of
                 None \<Rightarrow> None
               | Some (Inl e) \<Rightarrow> Some (Inl e)
               | Some (Inr g') \<Rightarrow>
                   Some (Inr (g'\<lparr>selected_inventory_index :=
                                   min (selected_inventory_index g')
                                       (int (length (inventory (player g'))) - 1)\<rparr>)))
         else if k \<in> set [KEY_ESCAPE, KEY_I]
         then Some (Inr (g\<lparr>state := PLAYING\<rparr>))
         else Some (Inr g))"

subsection \<open>Observations on the dungeon\<close>

text \<open>
  A cell of the grid holds the stairs. The tiles form a grid of the dungeon's size with no
  stairs on it, as they do while rooms are placed. The centre of a room lies on the grid.
\<close>

definition stairs_at :: "Dungeon \<Rightarrow> int \<Rightarrow> int \<Rightarrow> bool" where
  "stairs_at d x y \<longleftrightarrow> in_bounds d x y \<and> get_cell (tiles d) x y = STAIRS"

definition tiles_plain :: "Dungeon \<Rightarrow> bool" where
  "tiles_plain d \<longleftrightarrow>
     grid_dims (tiles d) (d_width d) (d_height d) \<and>
     (\<forall>x y. in_bounds d x y \<longrightarrow> get_cell (tiles d) x y \<noteq> STAIRS)"

definition center_on_grid :: "Dungeon \<Rightarrow> Room \<Rightarrow> bool" where
  "center_on_grid d r \<longleftrightarrow> in_bounds d (fst (center r)) (snd (center r))"

text \<open>Carving keeps the size, the rooms and the absence of stairs.\<close>

definition carve_inv :: "int \<Rightarrow> int \<Rightarrow> Room list \<Rightarrow> Dungeon \<Rightarrow> bool" where
  "carve_inv w h rs d \<longleftrightarrow> tiles_plain d \<and> d_width d = w \<and> d_height d = h \<and> rooms d = rs"

text \<open>
  The invariant of room placement: plain tiles, a fixed size, every room centred on the grid.
\<close>

definition gen_inv :: "int \<Rightarrow> int \<Rightarrow> Dungeon \<Rightarrow> bool" where
  "gen_inv w h d \<longleftrightarrow>
     tiles_plain d \<and> d_width d = w \<and> d_height d = h \<and> list_all (center_on_grid d) (rooms d)"

text \<open>The first candidate meets no room and is accepted; later passes keep the first room.\<close>

definition first_candidate :: "(nat \<Rightarrow> nat) \<Rightarrow> Dungeon \<Rightarrow> nat \<Rightarrow> Room" where
  "first_candidate R d c =
     (let w = randint_val R c ROOM_MIN_SIZE ROOM_MAX_SIZE;
          h = randint_val R (c + 1) ROOM_MIN_SIZE ROOM_MAX_SIZE
      in \<lparr>r_x = randint_val R (c + 2) 1 (d_width d - w - 2),
          r_y = randint_val R (c + 3) 1 (d_height d - h - 2),
          r_width = w, r_height = h\<rparr>)"

text \<open>
  What room placement does to the list of rooms and to the cursor: the carving does not
  enter the intersection test, so the list can be followed on a grid of \<open>W\<close> by \<open>H\<close>
  cells without the tiles.
\<close>

definition try_room_rooms ::
  "(nat \<Rightarrow> nat) \<Rightarrow> int \<Rightarrow> int \<Rightarrow> Room list \<Rightarrow> nat \<Rightarrow> error + (Room list \<times> nat)" where
  "try_room_rooms R W H rs c =
     (let w = randint_val R c ROOM_MIN_SIZE ROOM_MAX_SIZE;
          h = randint_val R (c + 1) ROOM_MIN_SIZE ROOM_MAX_SIZE
      in case randint R (c + 2) 1 (W - w - 2) of Inl e \<Rightarrow> Inl e
         | Inr (x, c3) \<Rightarrow>
        (case randint R c3 1 (H - h - 2) of Inl e \<Rightarrow> Inl e
         | Inr (y, c4) \<Rightarrow>
        (let new_room = \<lparr>r_x = x, r_y = y, r_width = w, r_height = h\<rparr>
         in if \<not> list_ex (intersects new_room) rs
            then Inr (rs @ [new_room], if rs \<noteq> [] then Suc c4 else c4)
            else Inr (rs, c4))))"

fun place_rooms_rooms ::
  "(nat \<Rightarrow> nat) \<Rightarrow> int \<Rightarrow> int \<Rightarrow> nat \<Rightarrow> Room list \<Rightarrow> nat \<Rightarrow> error + (Room list \<times> nat)" where
  "place_rooms_rooms R W H 0 rs c = Inr (rs, c)"
| "place_rooms_rooms R W H (Suc n) rs c =
     (case try_room_rooms R W H rs c of Inl e \<Rightarrow> Inl e
      | Inr (rs', c') \<Rightarrow> place_rooms_rooms R W H n rs' c')"

text \<open>
  An oracle for a run with two rooms: the seventh draw, the column of the second candidate,
  is 20 and every other draw is 0.
\<close>

definition second_room_rng :: "nat \<Rightarrow> nat" where
  "second_room_rng n = (if n = 6 then 20 else 0)"

subsection \<open>Observations on the field of view\<close>

text \<open>
  The float that \<open>k\<close> additions of \<open>dx\<close> make of \<open>x0\<close>; the cell that the ray of angle
  \<open>a\<close> reaches at its step \<open>k\<close> from the origin; and the cells that some ray reaches in
  fewer than \<open>radius\<close> steps.
\<close>

definition ray_pos :: "rat \<Rightarrow> rat \<Rightarrow> nat \<Rightarrow> rat" where
  "ray_pos x0 dx k = ((\<lambda>x. round_double (x + dx)) ^^ k) x0"

definition ray_cell :: "trig \<Rightarrow> int \<Rightarrow> int \<Rightarrow> nat \<Rightarrow> nat \<Rightarrow> int \<times> int" where
  "ray_cell T px py a k =
     (case T a of (dx, dy) \<Rightarrow>
        (py_int (ray_pos (round_double (of_int px)) (Rep_unit_float dx) k),
         py_int (ray_pos (round_double (of_int py)) (Rep_unit_float dy) k)))"

definition on_a_ray :: "trig \<Rightarrow> int \<Rightarrow> int \<Rightarrow> int \<Rightarrow> int \<Rightarrow> int \<Rightarrow> bool" where
  "on_a_ray T px py radius x y \<longleftrightarrow>
     list_ex (\<lambda>a. list_ex (\<lambda>k. ray_cell T px py a k = (x, y)) [0..<nat radius]) [0..<360]"

text \<open>The float \<open>x\<close> is at most \<open>k\<close> away from the integer \<open>p\<close>.\<close>

definition near :: "int \<Rightarrow> nat \<Rightarrow> rat \<Rightarrow> bool" where
  "near p k x \<longleftrightarrow> of_int (p - int k) \<le> x \<and> x \<le> of_int (p + int k)"

text \<open>
  The state of the field-of-view loops, relative to the dungeon \<open>d\<close> they started from: the
  size and the tiles are those of \<open>d\<close>, both boolean grids have that size, a visible cell
  lies on a ray, and a cell is explored exactly when it was explored in \<open>d\<close> or is visible.
\<close>

definition fov_inv :: "trig \<Rightarrow> Dungeon \<Rightarrow> int \<Rightarrow> int \<Rightarrow> int \<Rightarrow> Dungeon \<Rightarrow> bool" where
  "fov_inv T d px py radius d' \<longleftrightarrow>
     d_width d' = d_width d \<and> d_height d' = d_height d \<and> tiles d' = tiles d \<and>
     rooms d' = rooms d \<and>
     grid_dims (visible d') (d_width d) (d_height d) \<and>
     grid_dims (explored d') (d_width d) (d_height d) \<and>
     (\<forall>x y. in_bounds d x y \<longrightarrow>
        (get_cell (visible d') x y \<longrightarrow> on_a_ray T px py radius x y) \<and>
        (get_cell (explored d') x y \<longleftrightarrow> get_cell (explored d) x y \<or> get_cell (visible d') x y))"

subsection \<open>Observations on item pickup\<close>

text \<open>
  An item lies on the player's tile; the entry that the pickup loop logs for such an item
  when the inventory is full.
\<close>

definition on_tile :: "Player \<Rightarrow> Item \<Rightarrow> bool" where
  "on_tile p item \<longleftrightarrow> i_x item = p_x p \<and> i_y item = p_y p"

definition full_inventory_entry :: "Item \<Rightarrow> message \<times> color" where
  "full_inventory_entry item =
     (if item_type item = GOLD then (MsgGold (i_value item), Gold) else (MsgInventoryFull, Red))"

subsection \<open>Bounds on hit points and mana\<close>

text \<open>
  Hit points at most their maximum, for the player and for every enemy, and mana between 0
  and its maximum. The second predicate holds the signs that the operations rely on: the
  level, the magic power and the value of every item of the inventory are not negative.
\<close>

definition stats_bounded :: "Game \<Rightarrow> bool" where
  "stats_bounded g \<longleftrightarrow>
     p_hp (player g) \<le> p_max_hp (player g) \<and>
     0 \<le> p_mana (player g) \<and> p_mana (player g) \<le> p_max_mana (player g) \<and>
     list_all (\<lambda>e. e_hp e \<le> e_max_hp e) (enemies g)"

definition stats_nonneg :: "Game \<Rightarrow> bool" where
  "stats_nonneg g \<longleftrightarrow>
     0 \<le> p_level (player g) \<and> 0 \<le> p_magic (player g) \<and>
     list_all (\<lambda>it. 0 \<le> i_value it) (inventory (player g))"

definition player_bounded :: "Player \<Rightarrow> bool" where
  "player_bounded p \<longleftrightarrow> p_hp p \<le> p_max_hp p \<and> 0 \<le> p_mana p \<and> p_mana p \<le> p_max_mana p"

text \<open>The damage that \<open>attack_enemy\<close> computes (lines 771 to 775).\<close>

definition attack_damage :: "(nat \<Rightarrow> nat) \<Rightarrow> Game \<Rightarrow> nat \<Rightarrow> int" where
  "attack_damage R g i =
     (if random_unit R (rnd g + 1) < 15 / 100
      then max 1 (get_total_attack (player g) - e_defense (enemies g ! i)
                  + randint_val R (rnd g) (- 2) 2) * 2
      else max 1 (get_total_attack (player g) - e_defense (enemies g ! i)
                  + randint_val R (rnd g) (- 2) 2))"

text \<open>The hit points of the enemy \<open>i\<close> after an attack that returns.\<close>

definition enemy_hp_after :: "(error + Game) option \<Rightarrow> nat \<Rightarrow> int option" where
  "enemy_hp_after r i =
     (case r of Some (Inr g) \<Rightarrow> Some (e_hp (enemies g ! i)) | _ \<Rightarrow> None)"

subsection \<open>Concrete states\<close>

text \<open>
  A level-1 rat (the first entry of \<open>enemy_types\<close>) on a given tile, a health potion on a
  given tile, and a game whose 50 by 40 grid has just been allocated: a warrior on the tile
  (2, 2), no enemies, no items, nothing visible.
\<close>

definition rat_at :: "int \<Rightarrow> int \<Rightarrow> Enemy" where
  "rat_at x y =
     \<lparr>e_x = x, e_y = y, e_name = TemplateName ''rat'', e_hp = 15, e_max_hp = 15,
      e_attack = 4, e_defense = 1, exp_value = 10, symbol = ''r'', e_color = Brown,
      is_boss = False\<rparr>"

definition item_at :: "int \<Rightarrow> int \<Rightarrow> ItemType \<Rightarrow> int \<Rightarrow> Item" where
  "item_at x y t v =
     \<lparr>i_x = x, i_y = y, item_type = t, i_name = ''item'', i_value = v, rarity = 1\<rparr>"

definition demo_game :: Game where
  "demo_game =
     \<lparr>state = PLAYING, dungeon = new_dungeon MAP_WIDTH MAP_HEIGHT,
      player = new_player 2 2 WARRIOR,
      enemies = [], items = [], dungeon_level = 1, max_dungeon_level = 8,
      message_log = [], particle_effects = [], turn_count = 0,
      selected_inventory_index = 0, rnd = 0\<rparr>"

text \<open>
  The same game with a rat on the tile (3, 2), next to the warrior, on a visible tile; and
  an oracle whose every raw draw is \<open>2\<^sup>5\<^sup>2\<close>: \<open>random()\<close> is then 0.5 and
  \<open>randint(-2, 2)\<close> is -1.
\<close>

definition melee_game :: Game where
  "melee_game =
     demo_game\<lparr>enemies := [rat_at 3 2],
               dungeon := (dungeon demo_game)\<lparr>visible :=
                            set_cell (grid MAP_WIDTH MAP_HEIGHT False) 3 2 True\<rparr>\<rparr>"

definition half_rng :: "nat \<Rightarrow> nat" where
  "half_rng = const_rng 4503599627370496"

text \<open>
  A level-1 demon (the last entry of \<open>enemy_types\<close>). The warrior wields a sword of value
  5 and wears an armor of value 4 and a shield of value 3; the demon stands on the tile
  (3, 2) and a rat on the tile (1, 2), on either side of him, both on visible tiles.
\<close>

definition demon_at :: "int \<Rightarrow> int \<Rightarrow> Enemy" where
  "demon_at x y =
     \<lparr>e_x = x, e_y = y, e_name = TemplateName ''demon'', e_hp = 80, e_max_hp = 80,
      e_attack = 20, e_defense = 8, exp_value = 80, symbol = ''D'', e_color = DarkRed,
      is_boss = False\<rparr>"

definition armed_game :: Game where
  "armed_game =
     demo_game\<lparr>player := (player demo_game)\<lparr>eq_weapon := Some (item_at 0 0 SWORD 5),
                                              eq_armor := Some (item_at 0 0 ARMOR 4),
                                              eq_shield := Some (item_at 0 0 SHIELD 3)\<rparr>,
               enemies := [demon_at 3 2, rat_at 1 2],
               dungeon := (dungeon demo_game)\<lparr>visible :=
                            set_cell (set_cell (grid MAP_WIDTH MAP_HEIGHT False) 3 2 True)
                                     1 2 True\<rparr>\<rparr>"

text \<open>
  The warrior with an inventory of 20 potions, standing on a sword and 12 gold, a ring lying
  elsewhere; and the warrior wielding a sword of value 5, with a sword of value 7 in the
  inventory.
\<close>

definition full_game :: Game where
  "full_game =
     demo_game\<lparr>player := (player demo_game)\<lparr>inventory := replicate 20 (item_at 0 0 HEALTH_POTION 25)\<rparr>,
               items := [item_at 2 2 SWORD 5, item_at 2 2 GOLD 12, item_at 5 5 RING 2]\<rparr>"

definition equip_game :: Game where
  "equip_game =
     demo_game\<lparr>player := (player demo_game)\<lparr>inventory := [item_at 0 0 SWORD 7],
                                              eq_weapon := Some (item_at 0 0 SWORD 5)\<rparr>\<rparr>"

text \<open>
  Two rooms on the 50 by 40 grid, with centres (3, 3) and (10, 3). In the first game the
  warrior stands in the first room with a teleport scroll, and a rat stands on the centre
  of the second room. In the second game, on level 5, the warrior stands where
  \<open>next_level\<close> puts him, on the centre of the first room, and no enemy has been placed.
\<close>

definition two_rooms :: Dungeon where
  "two_rooms =
     (create_room (create_room (new_dungeon MAP_WIDTH MAP_HEIGHT)
                                \<lparr>r_x = 1, r_y = 1, r_width = 5, r_height = 5\<rparr>)
                  \<lparr>r_x = 8, r_y = 1, r_width = 5, r_height = 5\<rparr>)
     \<lparr>rooms := [\<lparr>r_x = 1, r_y = 1, r_width = 5, r_height = 5\<rparr>,
                \<lparr>r_x = 8, r_y = 1, r_width = 5, r_height = 5\<rparr>]\<rparr>"

definition teleport_game :: Game where
  "teleport_game =
     demo_game\<lparr>dungeon := two_rooms,
               player := (player demo_game)\<lparr>inventory := [item_at 0 0 SCROLL_TELEPORT 0]\<rparr>,
               enemies := [rat_at 10 3]\<rparr>"

definition boss_game :: Game where
  "boss_game =
     demo_game\<lparr>dungeon := two_rooms,
               player := (player demo_game)\<lparr>p_x := 3, p_y := 3\<rparr>,
               dungeon_level := 5\<rparr>"

text \<open>The tiles of the player and the living enemies after \<open>use_item\<close>.\<close>

definition entity_tiles_after :: "(error + Game) option \<Rightarrow> (int \<times> int) list option" where
  "entity_tiles_after r =
     (case r of Some (Inr g) \<Rightarrow> Some (entity_tiles g) | _ \<Rightarrow> None)"

section \<open>Verification\<close>

subsection \<open>Floats\<close>

declare bit_length.simps [simp del]

lemma bit_length_le: "n < 2 ^ w \<Longrightarrow> bit_length n \<le> w"
proof (induction n arbitrary: w rule: bit_length.induct)
  case (1 n)
  show ?case
  proof (cases "n = 0")
    case True
    then show ?thesis by (simp add: bit_length.simps)
  next
    case False
    with "1.prems" obtain v where w: "w = Suc v" by (cases w) auto
    with "1.prems" have "n div 2 < 2 ^ v" by auto
    from "1.IH"[OF False this] False w show ?thesis by (simp add: bit_length.simps[of n])
  qed
qed

lemma round_half_even_of_int: "round_half_even (of_int m) = m"
  by (simp add: round_half_even_def)

lemma round_half_even_between: "\<lfloor>z\<rfloor> \<le> round_half_even z \<and> round_half_even z \<le> \<lceil>z\<rceil>"
proof -
  have "z = of_int \<lfloor>z\<rfloor> \<or> \<lceil>z\<rceil> = \<lfloor>z\<rfloor> + 1"
    by (metis ceiling_altdef)
  moreover have "\<lfloor>z\<rfloor> \<le> \<lceil>z\<rceil>" by (rule floor_le_ceiling)
  ultimately show ?thesis
    by (auto simp: round_half_even_def Let_def)
qed

lemma round_half_even_le: "z \<le> of_int m \<Longrightarrow> round_half_even z \<le> m"
  using round_half_even_between[of z] by (simp add: ceiling_le_iff order_trans[of _ "\<lceil>z\<rceil>"])

lemma round_half_even_ge: "of_int m \<le> z \<Longrightarrow> m \<le> round_half_even z"
  using round_half_even_between[of z] by (simp add: le_floor_iff order_trans[of _ "\<lfloor>z\<rfloor>"])

text \<open>
  Below \<open>2\<^sup>5\<^sup>3\<^sup>-\<^sup>h\<close> in magnitude the doubles are multiples of a unit \<open>2\<^sup>-\<^sup>k\<close> with
  \<open>k \<ge> h\<close>, and rounding is rounding to the nearest multiple.
\<close>

lemma round_double_grid:
  assumes "\<bar>q\<bar> < 2 ^ (53 - h)" and "h \<le> 53"
  shows "\<exists>k\<ge>h. round_double q = of_int (round_half_even (q * 2 ^ k)) / 2 ^ k"
proof -
  define D where "D = DBL_DENORM_EXP"
  have D: "53 \<le> D" by (simp add: D_def DBL_DENORM_EXP_def)
  define s where "s = q * 2 ^ D"
  define j where "j = bit_length (nat \<lfloor>\<bar>s\<bar>\<rfloor>) - 53"
  have "\<bar>s\<bar> < 2 ^ (53 - h) * 2 ^ D"
    using assms(1) by (simp add: abs_mult s_def)
  also have "\<dots> = 2 ^ (53 - h + D)"
    by (rule power_add[symmetric])
  finally have "\<lfloor>\<bar>s\<bar>\<rfloor> < 2 ^ (53 - h + D)"
    by (simp add: floor_less_iff)
  then have "nat \<lfloor>\<bar>s\<bar>\<rfloor> < 2 ^ (53 - h + D)"
    by (simp add: nat_less_iff)
  from bit_length_le[OF this] have j: "j \<le> D - h" using assms(2) by (simp add: j_def)
  define k where "k = D - j"
  have kh: "h \<le> k" and kj: "D = k + j" using j assms(2) D by (simp_all add: k_def)
  have p: "(2::rat) ^ D = 2 ^ k * 2 ^ j"
    unfolding kj by (rule power_add)
  have a: "s / 2 ^ j = q * 2 ^ k"
    by (simp add: p s_def)
  have b: "of_int (2 ^ j * m) / (2::rat) ^ D = of_int m / 2 ^ k" for m
    by (simp add: p)
  have "round_double q = of_int (2 ^ j * round_half_even (s / 2 ^ j)) / 2 ^ D"
    by (simp add: round_double_def Let_def DBL_MANT_DIG_def s_def j_def flip: D_def)
  also have "\<dots> = of_int (round_half_even (q * 2 ^ k)) / 2 ^ k"
    unfolding a by (rule b)
  finally show ?thesis using kh by blast
qed

text \<open>An integer below \<open>2\<^sup>5\<^sup>3\<close> in magnitude, and half of one, are doubles.\<close>

lemma round_double_of_int:
  assumes "\<bar>n\<bar> < 2 ^ 53"
  shows "round_double (of_int n) = of_int n"
proof -
  have "\<bar>of_int n :: rat\<bar> < 2 ^ (53 - 0)"
    using assms by (metis of_int_abs of_int_less_iff of_int_numeral of_int_power diff_zero)
  from round_double_grid[OF this] obtain k where
    k: "round_double (of_int n) = of_int (round_half_even (of_int n * 2 ^ k)) / 2 ^ k"
    by auto
  have "(of_int n :: rat) * 2 ^ k = of_int (n * 2 ^ k)" by simp
  then show ?thesis
    unfolding k by (simp only: round_half_even_of_int) simp
qed

lemma round_double_half:
  assumes "\<bar>m\<bar> < 2 ^ 53"
  shows "round_double (of_int m / 2) = of_int m / 2"
proof -
  have "\<bar>of_int m / 2 :: rat\<bar> < 2 ^ (53 - 1)"
  proof -
    have "(of_int \<bar>m\<bar> :: rat) < of_int (2 ^ 53)" using assms by (simp only: of_int_less_iff)
    then show ?thesis by (simp add: abs_divide)
  qed
  from round_double_grid[OF this] obtain k where k1: "1 \<le> k" and
    k: "round_double (of_int m / 2) = of_int (round_half_even (of_int m / 2 * 2 ^ k)) / 2 ^ k"
    by auto
  from k1 obtain k' where k': "k = Suc k'" by (cases k) auto
  have "(of_int m / 2 :: rat) * 2 ^ k = of_int (m * 2 ^ k')" by (simp add: k')
  then show ?thesis
    unfolding k by (simp only: round_half_even_of_int) (simp add: k')
qed

text \<open>Below \<open>2\<^sup>5\<^sup>3\<close> in magnitude, rounding does not cross an integer.\<close>

lemma round_double_le_int:
  assumes "\<bar>q\<bar> < 2 ^ 53" and "q \<le> of_int n"
  shows "round_double q \<le> of_int n"
proof -
  from round_double_grid[of q 0] assms(1) obtain k where
    k: "round_double q = of_int (round_half_even (q * 2 ^ k)) / 2 ^ k"
    by auto
  have "q * 2 ^ k \<le> of_int (n * 2 ^ k)" using assms(2) by simp
  from round_half_even_le[OF this]
  have "(of_int (round_half_even (q * 2 ^ k)) :: rat) \<le> of_int (n * 2 ^ k)"
    by (simp only: of_int_le_iff)
  then show ?thesis unfolding k by (simp add: divide_le_eq)
qed

lemma round_double_ge_int:
  assumes "\<bar>q\<bar> < 2 ^ 53" and "of_int n \<le> q"
  shows "of_int n \<le> round_double q"
proof -
  from round_double_grid[of q 0] assms(1) obtain k where
    k: "round_double q = of_int (round_half_even (q * 2 ^ k)) / 2 ^ k"
    by auto
  have "of_int (n * 2 ^ k) \<le> q * 2 ^ k" using assms(2) by simp
  from round_half_even_ge[OF this]
  have "(of_int (n * 2 ^ k) :: rat) \<le> of_int (round_half_even (q * 2 ^ k))"
    by (simp only: of_int_le_iff)
  then show ?thesis unfolding k by (simp add: le_divide_eq)
qed

lemma not_inf_small:
  assumes "\<bar>q\<bar> < 2 ^ 53"
  shows "\<not> is_inf q"
proof -
  have "(2::rat) ^ 53 \<le> 2 ^ DBL_MAX_EXP"
    by (rule power_increasing) (simp_all add: DBL_MAX_EXP_def)
  with assms have "\<bar>q\<bar> < 2 ^ DBL_MAX_EXP" by (rule less_le_trans)
  then show ?thesis by (simp add: is_inf_def not_le)
qed

lemma of_int_small: "\<bar>n\<bar> < 2 ^ 53 \<Longrightarrow> \<bar>of_int n :: rat\<bar> < 2 ^ 53"
  by (metis of_int_abs of_int_less_iff of_int_numeral of_int_power)

lemma to_double_small: "\<bar>n\<bar> < 2 ^ 53 \<Longrightarrow> to_double n = Inr (of_int n)"
  using not_inf_small[OF of_int_small, of n]
  by (simp add: to_double_def round_double_of_int)

lemma bit_length_ge: "2 ^ w \<le> n \<Longrightarrow> Suc w \<le> bit_length n"
proof (induction n arbitrary: w rule: bit_length.induct)
  case (1 n)
  have "(0::nat) < 2 ^ w" by simp
  with "1.prems" have n0: "n \<noteq> 0" by linarith
  show ?case
  proof (cases w)
    case 0
    with n0 show ?thesis by (simp add: bit_length.simps[of n])
  next
    case (Suc v)
    with "1.prems" have "2 ^ v \<le> n div 2" by auto
    from "1.IH"[OF n0 this] n0 Suc show ?thesis by (simp add: bit_length.simps[of n])
  qed
qed

text \<open>
  Between \<open>2\<^sup>5\<^sup>2\<^sup>+\<^sup>e\<close> and \<open>2\<^sup>5\<^sup>3\<^sup>+\<^sup>e\<close> the doubles are the multiples of \<open>2\<^sup>e\<close>.
\<close>

lemma round_double_binade:
  assumes lo: "2 ^ (52 + e) \<le> \<bar>q\<bar>" and hi: "\<bar>q\<bar> < 2 ^ (53 + e)"
  shows "round_double q = of_int (2 ^ e * round_half_even (q / 2 ^ e))"
proof -
  define D where "D = DBL_DENORM_EXP"
  define s where "s = q * 2 ^ D"
  have "\<bar>s\<bar> < 2 ^ (53 + e) * 2 ^ D"
    using hi by (simp add: abs_mult s_def)
  also have "\<dots> = 2 ^ (53 + e + D)"
    by (rule power_add[symmetric])
  finally have "\<lfloor>\<bar>s\<bar>\<rfloor> < 2 ^ (53 + e + D)"
    by (simp add: floor_less_iff)
  then have up: "nat \<lfloor>\<bar>s\<bar>\<rfloor> < 2 ^ (53 + e + D)"
    by (simp add: nat_less_iff)
  have "(2::rat) ^ (52 + e + D) = 2 ^ (52 + e) * 2 ^ D"
    by (rule power_add)
  also have "\<dots> \<le> \<bar>s\<bar>"
    using lo by (simp add: abs_mult s_def)
  finally have "(of_int (2 ^ (52 + e + D)) :: rat) \<le> \<bar>s\<bar>" by simp
  then have "2 ^ (52 + e + D) \<le> \<lfloor>\<bar>s\<bar>\<rfloor>"
    by (simp only: le_floor_iff)
  then have low: "2 ^ (52 + e + D) \<le> nat \<lfloor>\<bar>s\<bar>\<rfloor>"
    by (simp add: le_nat_iff)
  from bit_length_le[OF up] bit_length_ge[OF low]
  have "bit_length (nat \<lfloor>\<bar>s\<bar>\<rfloor>) = 53 + e + D" by simp
  then have j: "bit_length (nat \<lfloor>\<bar>s\<bar>\<rfloor>) - 53 = e + D" by simp
  have p: "(2::rat) ^ (e + D) = 2 ^ e * 2 ^ D"
    by (rule power_add)
  have a: "s / 2 ^ (e + D) = q / 2 ^ e"
    by (simp add: p s_def)
  have b: "of_int (2 ^ (e + D) * m) / (2::rat) ^ D = of_int (2 ^ e * m)" for m
    by (simp add: p)
  have "round_double q = of_int (2 ^ (e + D) * round_half_even (s / 2 ^ (e + D))) / 2 ^ D"
    using j by (simp add: round_double_def Let_def DBL_MANT_DIG_def s_def flip: D_def)
  also have "\<dots> = of_int (2 ^ e * round_half_even (q / 2 ^ e))"
    unfolding a by (rule b)
  finally show ?thesis .
qed

text \<open>The integer \<open>2\<^sup>1\<^sup>0\<^sup>2\<^sup>4\<close> is too large for a float.\<close>

lemma to_double_overflow: "to_double (2 ^ 1024) = Inl OverflowError"
proof -
  have e: "(52::nat) + 972 = 1024" "(53::nat) + 972 = 1025" by simp_all
  have a: "\<bar>(2::rat) ^ 1024\<bar> = 2 ^ 1024" by (rule abs_of_pos) (rule zero_less_power, simp)
  have "(2::rat) ^ 1024 < 2 ^ 1025" by (rule power_strict_increasing) simp_all
  then have "round_double (2 ^ 1024) = of_int (2 ^ 972 * round_half_even (2 ^ 1024 / 2 ^ 972))"
    by (intro round_double_binade) (simp_all only: e a order_refl)
  also have "(2::rat) ^ 1024 / 2 ^ 972 = of_int (2 ^ 52)"
    by (simp add: power_diff[symmetric])
  also have "round_half_even (of_int (2 ^ 52)) = 2 ^ 52" by (rule round_half_even_of_int)
  also have "(of_int (2 ^ 972 * 2 ^ 52) :: rat) = 2 ^ 1024"
    by (simp flip: power_add)
  finally have r: "round_double (2 ^ 1024) = 2 ^ 1024" .
  have "is_inf (2 ^ 1024)"
    by (simp add: is_inf_def DBL_MAX_EXP_def)
  with r show ?thesis
    by (simp add: to_double_def)
qed

lemma py_int_of_int: "py_int (of_int p) = p"
  by (simp add: py_int_def)

lemma py_int_half: "py_int (of_int (3 * t) / 2) = truncated_1_5 t"
proof (cases "0 \<le> t")
  case True
  have "\<lfloor>(of_int (3 * t) :: rat) / of_int 2\<rfloor> = (3 * t) div 2"
    by (rule floor_divide_of_int_eq)
  with True show ?thesis by (simp add: py_int_def truncated_1_5_def)
next
  case False
  have "\<lfloor>(of_int (3 * (- t)) :: rat) / of_int 2\<rfloor> = (3 * (- t)) div 2"
    by (rule floor_divide_of_int_eq)
  then have "\<lceil>(of_int (3 * t) :: rat) / 2\<rceil> = - ((3 * (- t)) div 2)"
    by (simp add: ceiling_def)
  moreover from False have "(of_int (3 * t) :: rat) / 2 < 0" by simp
  ultimately show ?thesis using False by (simp add: py_int_def truncated_1_5_def)
qed

subsection \<open>Experience and levelling\<close>

text \<open>
  While three times the threshold stays below \<open>2\<^sup>5\<^sup>3\<close> the float product is exact, and the
  code computes the truncated product of the specification.
\<close>

lemma int_times_1_5_exact:
  assumes "\<bar>3 * t\<bar> < 2 ^ 53"
  shows "int_times_1_5 t = Inr (truncated_1_5 t)"
proof -
  from assms have t: "\<bar>t\<bar> < 2 ^ 53" by simp
  have p: "(of_int t :: rat) * (3 / 2) = of_int (3 * t) / 2" by simp
  have "\<bar>of_int (3 * t) / 2 :: rat\<bar> \<le> \<bar>of_int (3 * t)\<bar>" by (simp add: abs_divide)
  also have "\<dots> < 2 ^ 53" using assms by (rule of_int_small)
  finally have ni: "\<not> is_inf (of_int (3 * t) / 2)" by (rule not_inf_small)
  have "int_times_1_5 t = int_of_float (round_double (of_int (3 * t) / 2))"
    unfolding int_times_1_5_def to_double_small[OF t] by (simp only: sum.case p)
  also have "\<dots> = int_of_float (of_int (3 * t) / 2)"
    by (simp only: round_double_half[OF assms])
  also have "\<dots> = Inr (truncated_1_5 t)"
    using ni by (simp only: int_of_float_def py_int_half if_False)
  finally show ?thesis .
qed

text \<open>
  Beyond the range of exactness the code departs from the truncated product: at the
  threshold 3002399751580333 the product 4503599627370499.5 lies halfway between two
  doubles and is rounded up to the even one.
\<close>

lemma int_times_1_5_rounds:
  "int_times_1_5 3002399751580333 = Inr 4503599627370500"
  "truncated_1_5 3002399751580333 = 4503599627370499"
proof -
  have t: "to_double 3002399751580333 = Inr 3002399751580333"
    using to_double_small[of 3002399751580333] by simp
  have "\<lfloor>(of_int 9007199254740999 :: rat) / of_int 2\<rfloor> = 9007199254740999 div 2"
    by (rule floor_divide_of_int_eq)
  then have fl: "\<lfloor>9007199254740999 / 2 :: rat\<rfloor> = 4503599627370499" by simp
  have r: "round_double (9007199254740999 / 2) = 4503599627370500"
    using round_double_binade[of 0 "9007199254740999 / 2"]
    by (simp add: round_half_even_def fl)
  have "\<bar>4503599627370500 :: rat\<bar> < 2 ^ 53" by simp
  then have ni: "\<not> is_inf 4503599627370500" by (rule not_inf_small)
  have "py_int 4503599627370500 = 4503599627370500"
    using py_int_of_int[of 4503599627370500] by simp
  with ni show "int_times_1_5 3002399751580333 = Inr 4503599627370500"
    by (simp add: int_times_1_5_def t r int_of_float_def)
  show "truncated_1_5 3002399751580333 = 4503599627370499"
    by (simp add: truncated_1_5_def)
qed

text \<open>A threshold of \<open>2\<^sup>1\<^sup>0\<^sup>2\<^sup>4\<close> makes the level-up raise.\<close>

lemma int_times_1_5_overflow: "int_times_1_5 (2 ^ 1024) = Inl OverflowError"
  by (simp only: int_times_1_5_def to_double_overflow sum.case)

lemma truncated_1_5_mono: "0 < t \<Longrightarrow> t \<le> truncated_1_5 t"
  by (simp add: truncated_1_5_def)

lemma threshold_after_Suc_shift:
  "threshold_after t (Suc n) = threshold_after (truncated_1_5 t) n"
  by (simp add: threshold_after_def funpow_swap1)

lemma exp_consumed_Suc_shift:
  "exp_consumed t (Suc n) = t + exp_consumed (truncated_1_5 t) n"
  unfolding exp_consumed_def
  by (simp add: sum.lessThan_Suc_shift threshold_after_Suc_shift del: sum.lessThan_Suc)
    (simp add: threshold_after_def)

lemma level_up_fields:
  "level_up R p c = Inr (p', c') \<Longrightarrow>
     p_level p' = p_level p + 1 \<and> int_times_1_5 (p_exp_to_next p) = Inr (p_exp_to_next p') \<and>
     p_exp p' = p_exp p \<and> c' = c + 5"
  by (auto simp: level_up_def Let_def split: sum.splits)

lemma level_up_returns:
  "int_times_1_5 (p_exp_to_next p) = Inr t \<Longrightarrow> \<exists>p'. level_up R p c = Inr (p', c + 5)"
  by (simp add: level_up_def Let_def)

text \<open>
  With a positive threshold and an experience whose triple is below \<open>2\<^sup>5\<^sup>3\<close> the loop
  returns, after some number \<open>n\<close> of level-ups: every one of its \<open>n\<close> tests passed, the next
  one fails, and the flag is set once \<open>n > 0\<close>. The experience is a non-negative integer
  that every pass lowers, and every threshold that is multiplied is at most the experience.
\<close>

lemma gain_exp_loop_returns:
  "0 < p_exp_to_next p \<Longrightarrow> 3 * p_exp p < 2 ^ 53 \<Longrightarrow>
   \<exists>p' c' n. gain_exp_loop R p c b = Some (Inr (b \<or> 0 < n, p', c')) \<and>
     p_level p' = p_level p + int n \<and>
     p_exp_to_next p' = threshold_after (p_exp_to_next p) n \<and>
     p_exp p' = p_exp p - exp_consumed (p_exp_to_next p) n \<and>
     p_exp p' < p_exp_to_next p' \<and>
     (\<forall>k<n. exp_consumed (p_exp_to_next p) (Suc k) \<le> p_exp p) \<and>
     c' = c + 5 * n"
proof (induction "nat (p_exp p)" arbitrary: p c b rule: less_induct)
  case less
  show ?case
  proof (cases "p_exp p \<ge> p_exp_to_next p")
    case False
    then have "gain_exp_loop R p c b = Some (Inr (b, p, c))"
      by (subst gain_exp_loop.simps) simp
    with False show ?thesis
      by (intro exI[of _ p] exI[of _ c] exI[of _ "0::nat"])
         (simp add: threshold_after_def exp_consumed_def)
  next
    case True
    let ?p1 = "p\<lparr>p_exp := p_exp p - p_exp_to_next p\<rparr>"
    from True less.prems have "\<bar>3 * p_exp_to_next p\<bar> < 2 ^ 53" by simp
    from int_times_1_5_exact[OF this]
    have ex: "int_times_1_5 (p_exp_to_next ?p1) = Inr (truncated_1_5 (p_exp_to_next p))" by simp
    from level_up_returns[OF ex, of R c]
    obtain q where lu: "level_up R ?p1 c = Inr (q, c + 5)" by blast
    from level_up_fields[OF lu] ex
    have q: "p_level q = p_level p + 1" "p_exp_to_next q = truncated_1_5 (p_exp_to_next p)"
      "p_exp q = p_exp p - p_exp_to_next p"
      by simp_all
    have step: "gain_exp_loop R p c b = gain_exp_loop R q (c + 5) True"
      using True lu by (subst gain_exp_loop.simps) simp
    have less': "nat (p_exp q) < nat (p_exp p)"
      using True less.prems q by simp
    have pos': "0 < p_exp_to_next q"
      using less.prems q truncated_1_5_mono[of "p_exp_to_next p"] by simp
    have small': "3 * p_exp q < 2 ^ 53"
      using less.prems q by simp
    from less.hyps[OF less' pos' small', of "c + 5" True]
    obtain p' c' n where ih:
      "gain_exp_loop R q (c + 5) True = Some (Inr (True \<or> 0 < n, p', c'))"
      "p_level p' = p_level q + int n"
      "p_exp_to_next p' = threshold_after (p_exp_to_next q) n"
      "p_exp p' = p_exp q - exp_consumed (p_exp_to_next q) n"
      "p_exp p' < p_exp_to_next p'"
      "\<forall>k<n. exp_consumed (p_exp_to_next q) (Suc k) \<le> p_exp q"
      "c' = c + 5 + 5 * n"
      by blast
    have tests: "\<forall>k<Suc n. exp_consumed (p_exp_to_next p) (Suc k) \<le> p_exp p"
    proof (intro allI impI)
      fix k assume "k < Suc n"
      show "exp_consumed (p_exp_to_next p) (Suc k) \<le> p_exp p"
      proof (cases k)
        case 0
        then show ?thesis using True by (simp add: exp_consumed_def threshold_after_def)
      next
        case (Suc j)
        with \<open>k < Suc n\<close> have "j < n" by simp
        with ih(6) have "exp_consumed (p_exp_to_next q) (Suc j) \<le> p_exp q" by blast
        then show ?thesis
          unfolding Suc exp_consumed_Suc_shift[of "p_exp_to_next p" "Suc j"] q by simp
      qed
    qed
    have ret: "gain_exp_loop R p c b = Some (Inr (b \<or> 0 < Suc n, p', c'))"
      using step ih(1) by simp
    have lev: "p_level p' = p_level p + int (Suc n)"
      using ih(2) q by simp
    have thr: "p_exp_to_next p' = threshold_after (p_exp_to_next p) (Suc n)"
      using ih(3) q by (simp add: threshold_after_Suc_shift del: funpow.simps)
    have ex: "p_exp p' = p_exp p - exp_consumed (p_exp_to_next p) (Suc n)"
      using ih(4) q by (simp add: exp_consumed_Suc_shift)
    have cur: "c' = c + 5 * Suc n"
      using ih(7) by simp
    from ret lev thr ex ih(5) tests cur show ?thesis
      by blast
  qed
qed

text \<open>
  A player who already holds 50 points of experience and is granted exactly the threshold
  of 100 levels up once and keeps the 50 points: the leftover is not 0.
\<close>

theorem gain_exp_exact_threshold_counterexample:
  "exp_outcome (gain_exp zero_rng ((new_player 0 0 WARRIOR)\<lparr>p_exp := 50\<rparr>) 0 100)
     = Some (True, 2, 50, 150)"
proof -
  have "int_times_1_5 100 = Inr 150"
    using int_times_1_5_exact[of 100] by (simp add: truncated_1_5_def)
  then show ?thesis
    by (simp add: exp_outcome_def gain_exp_def gain_exp_loop.simps level_up_def Let_def
        new_player_def)
qed

text \<open>
  C2 (amended). Let the threshold be positive, and let three times the experience after
  the grant be below \<open>2\<^sup>5\<^sup>3\<close>, so that every float product of the loop is exact. Then
  \<open>gain_exp\<close> returns. It adds the amount, then levels up \<open>n\<close> times, each time taking the
  current threshold off the experience and replacing the threshold by its truncated
  product with 1.5; all \<open>n\<close> loop tests pass and the next fails; the result is true exactly
  when \<open>n > 0\<close>. Granting exactly the threshold to a player whose experience is below it
  yields exactly one level-up and leaves the experience held before the grant, hence 0 for
  a player who held none.
\<close>

theorem gain_exp_levels:
  assumes "0 < p_exp_to_next p" and "3 * (p_exp p + amount) < 2 ^ 53"
  shows "\<exists>p' c' n. gain_exp R p c amount = Some (Inr (0 < n, p', c')) \<and>
     p_level p' = p_level p + int n \<and>
     p_exp_to_next p' = threshold_after (p_exp_to_next p) n \<and>
     p_exp p' = p_exp p + amount - exp_consumed (p_exp_to_next p) n \<and>
     p_exp p' < p_exp_to_next p' \<and>
     (\<forall>k<n. exp_consumed (p_exp_to_next p) (Suc k) \<le> p_exp p + amount) \<and>
     (0 \<le> p_exp p \<and> p_exp p < p_exp_to_next p \<and> amount = p_exp_to_next p
        \<longrightarrow> n = 1 \<and> p_exp p' = p_exp p)"
proof -
  let ?q = "p\<lparr>p_exp := p_exp p + amount\<rparr>"
  let ?T = "p_exp_to_next p"
  have "0 < p_exp_to_next ?q" "3 * p_exp ?q < 2 ^ 53" using assms by simp_all
  from gain_exp_loop_returns[OF this, of R c False]
  obtain p' c' n where r:
    "gain_exp_loop R ?q c False = Some (Inr (0 < n, p', c'))"
    "p_level p' = p_level p + int n"
    "p_exp_to_next p' = threshold_after ?T n"
    "p_exp p' = p_exp p + amount - exp_consumed ?T n"
    "p_exp p' < p_exp_to_next p'"
    "\<forall>k<n. exp_consumed ?T (Suc k) \<le> p_exp p + amount"
    by auto
  have one: "n = 1 \<and> p_exp p' = p_exp p"
    if h: "0 \<le> p_exp p" "p_exp p < ?T" "amount = ?T"
  proof -
    have "n \<noteq> 0"
    proof
      assume "n = 0"
      with r(3,4,5) h show False
        by (simp add: threshold_after_def exp_consumed_def)
    qed
    moreover have "n < 2"
    proof (rule ccontr)
      assume "\<not> n < 2"
      then have "1 < n" by simp
      with r(6) have "exp_consumed ?T (Suc 1) \<le> p_exp p + amount" by blast
      then have "?T + truncated_1_5 ?T \<le> p_exp p + ?T"
        using h by (simp add: exp_consumed_def threshold_after_def)
      with truncated_1_5_mono[OF assms(1)] h show False by simp
    qed
    ultimately have n1: "n = 1" by simp
    with r(4) h show ?thesis
      by (simp add: exp_consumed_def threshold_after_def)
  qed
  from r one show ?thesis
    unfolding gain_exp_def by blast
qed

theorem gain_exp_levels_witness:
  "0 < p_exp_to_next (new_player 0 0 WARRIOR) \<and>
   3 * (p_exp (new_player 0 0 WARRIOR) + 100) < (2::int) ^ 53 \<and>
   exp_outcome (gain_exp zero_rng (new_player 0 0 WARRIOR) 0 100) = Some (True, 2, 0, 150) \<and>
   exp_outcome (gain_exp zero_rng (new_player 0 0 WARRIOR) 0 250) = Some (True, 3, 0, 225) \<and>
   exp_outcome (gain_exp zero_rng (new_player 0 0 WARRIOR) 0 99) = Some (False, 1, 99, 100)"
proof -
  let ?p = "new_player 0 0 WARRIOR"
  have pos: "0 < p_exp_to_next ?p" and small: "3 * (p_exp ?p + 100) < (2::int) ^ 53"
    by (simp_all add: new_player_def)
  from gain_exp_levels[OF pos small, of zero_rng 0]
  obtain p' c' n where r:
    "gain_exp zero_rng ?p 0 100 = Some (Inr (0 < n, p', c'))"
    "p_level p' = p_level ?p + int n"
    "p_exp_to_next p' = threshold_after (p_exp_to_next ?p) n"
    "0 \<le> p_exp ?p \<and> p_exp ?p < p_exp_to_next ?p \<and> 100 = p_exp_to_next ?p
        \<longrightarrow> n = 1 \<and> p_exp p' = p_exp ?p"
    by blast
  from r(4) have n: "n = 1" and e: "p_exp p' = 0" by (simp_all add: new_player_def)
  from r(1,2,3) n e
  have a: "exp_outcome (gain_exp zero_rng ?p 0 100) = Some (True, 2, 0, 150)"
    by (simp add: exp_outcome_def new_player_def threshold_after_def truncated_1_5_def)
  have t: "int_times_1_5 100 = Inr 150" "int_times_1_5 150 = Inr 225"
    using int_times_1_5_exact[of 100] int_times_1_5_exact[of 150]
    by (simp_all add: truncated_1_5_def)
  have b: "exp_outcome (gain_exp zero_rng ?p 0 250) = Some (True, 3, 0, 225)"
    by (simp add: exp_outcome_def gain_exp_def gain_exp_loop.simps level_up_def Let_def
        new_player_def t)
  have c: "exp_outcome (gain_exp zero_rng ?p 0 99) = Some (False, 1, 99, 100)"
    by (simp add: exp_outcome_def gain_exp_def gain_exp_loop.simps new_player_def)
  from pos small a b c show ?thesis by simp
qed

subsection \<open>Spells\<close>

text \<open>
  C9. With mana below the cost of the spell (20 for heal, 30 for fireball), \<open>cast_spell\<close>
  returns the game it was given with one more entry in the message log, the notice of
  insufficient mana: no mana is spent, no hit points change, nothing else changes.
\<close>

theorem cast_spell_insufficient_mana:
  "(p_mana (player g) < 20 \<longrightarrow>
      cast_spell R g ''heal'' =
        Some (Inr (g\<lparr>message_log := log_add (message_log g) (MsgNoMana, Red)\<rparr>))) \<and>
   (p_mana (player g) < 30 \<longrightarrow>
      cast_spell R g ''fireball'' =
        Some (Inr (g\<lparr>message_log := log_add (message_log g) (MsgNoMana, Red)\<rparr>)))"
  by (simp add: cast_spell_def)

theorem cast_spell_insufficient_mana_witness:
  "p_mana (player (demo_game\<lparr>player := (player demo_game)\<lparr>p_mana := 10\<rparr>\<rparr>)) < 20 \<and>
   p_mana (player (demo_game\<lparr>player := (player demo_game)\<lparr>p_mana := 10\<rparr>\<rparr>)) < 30 \<and>
   cast_spell zero_rng (demo_game\<lparr>player := (player demo_game)\<lparr>p_mana := 10\<rparr>\<rparr>) ''heal'' =
     Some (Inr (demo_game\<lparr>player := (player demo_game)\<lparr>p_mana := 10\<rparr>,
                          message_log := [(MsgNoMana, Red)]\<rparr>)) \<and>
   cast_spell zero_rng (demo_game\<lparr>player := (player demo_game)\<lparr>p_mana := 10\<rparr>\<rparr>) ''fireball'' =
     Some (Inr (demo_game\<lparr>player := (player demo_game)\<lparr>p_mana := 10\<rparr>,
                          message_log := [(MsgNoMana, Red)]\<rparr>))"
  using cast_spell_insufficient_mana
    [of "demo_game\<lparr>player := (player demo_game)\<lparr>p_mana := 10\<rparr>\<rparr>" zero_rng]
  by (simp add: demo_game_def log_add_def max_messages_def)

text \<open>The search keeps \<open>closest\<close> when no enemy it visits is both alive and visible.\<close>

lemma closest_loop_none:
  "\<forall>i\<in>set js. enemy_is_alive (enemies g ! i) \<longrightarrow>
       grid_get (visible (dungeon g)) (e_x (enemies g ! i)) (e_y (enemies g ! i)) = Inr False
   \<Longrightarrow> closest_loop g js closest = Inr closest"
  by (induction js) (simp_all add: Let_def)

text \<open>
  C10. With mana of at least 30 and no living enemy on a visible tile (the visible grid
  reads false at the tile of every living enemy), casting the fireball returns the game it
  was given with one more entry in the message log, the notice that there is no target: no
  mana is spent and no enemy is damaged.
\<close>

theorem cast_fireball_no_target:
  assumes "p_mana (player g) \<ge> 30"
    and "\<forall>e\<in>set (enemies g). enemy_is_alive e \<longrightarrow>
           grid_get (visible (dungeon g)) (e_x e) (e_y e) = Inr False"
  shows "cast_spell R g ''fireball'' =
           Some (Inr (g\<lparr>message_log := log_add (message_log g) (MsgNoTargets, Gray)\<rparr>))"
proof -
  have "closest_loop g [0..<length (enemies g)] None = Inr None"
    using assms(2) by (intro closest_loop_none) simp
  with assms(1) show ?thesis
    by (simp add: cast_spell_def)
qed

theorem cast_fireball_no_target_witness:
  "p_mana (player (demo_game\<lparr>enemies := [rat_at 3 3]\<rparr>)) \<ge> 30 \<and>
   enemy_is_alive (rat_at 3 3) \<and>
   grid_get (visible (dungeon demo_game)) 3 3 = Inr False \<and>
   cast_spell zero_rng (demo_game\<lparr>enemies := [rat_at 3 3]\<rparr>) ''fireball'' =
     Some (Inr (demo_game\<lparr>enemies := [rat_at 3 3], message_log := [(MsgNoTargets, Gray)]\<rparr>))"
proof -
  let ?g = "demo_game\<lparr>enemies := [rat_at 3 3]\<rparr>"
  have m: "p_mana (player ?g) \<ge> 30"
    by (simp add: demo_game_def new_player_def)
  have v: "grid_get (visible (dungeon demo_game)) 3 3 = Inr False"
    by (simp add: demo_game_def new_dungeon_def grid_def grid_get_def py_index_def py_pos_def
        MAP_WIDTH_def MAP_HEIGHT_def)
  have a: "enemy_is_alive (rat_at 3 3)"
    by (simp add: rat_at_def enemy_is_alive_def)
  have h: "\<forall>e\<in>set (enemies ?g). enemy_is_alive e \<longrightarrow>
             grid_get (visible (dungeon ?g)) (e_x e) (e_y e) = Inr False"
    using v by (simp add: rat_at_def)
  from cast_fireball_no_target[OF m h, of zero_rng] m a v show ?thesis
    by (simp add: demo_game_def log_add_def max_messages_def)
qed

subsection \<open>The index of \<open>use_item\<close>\<close>

text \<open>An index at or beyond the length of the inventory is ignored.\<close>

lemma use_item_index_too_large:
  "index \<ge> int (length (inventory (player g))) \<Longrightarrow> use_item R T g index = Some (Inr g)"
  by (simp add: use_item_def)

text \<open>
  C8 (the code at negative indices). The guard of \<open>use_item\<close> tests the upper bound only.
  With an empty inventory the index -1 raises \<open>IndexError\<close>, and the inventory keys reach
  it: on an empty inventory the key DOWN sets the selection to -1, and using the only item
  with ENTER does too; the next ENTER raises. With one potion in the inventory the index
  -1 consumes the potion.
\<close>

theorem use_item_negative_index:
  "use_item R T demo_game (- 1) = Some (Inl IndexError) \<and>
   on_key_press_inventory R T demo_game KEY_DOWN =
     Some (Inr (demo_game\<lparr>selected_inventory_index := - 1\<rparr>)) \<and>
   on_key_press_inventory R T
       (demo_game\<lparr>player := (player demo_game)\<lparr>inventory := [item_at 0 0 HEALTH_POTION 25]\<rparr>\<rparr>)
       KEY_ENTER =
     Some (Inr (demo_game\<lparr>player := (player demo_game)\<lparr>p_hp := 120, inventory := []\<rparr>,
                          message_log := [(MsgHealed 30, Green)],
                          selected_inventory_index := - 1\<rparr>)) \<and>
   on_key_press_inventory R T (demo_game\<lparr>selected_inventory_index := - 1\<rparr>) KEY_ENTER =
     Some (Inl IndexError) \<and>
   use_item R T
       (demo_game\<lparr>player := (player demo_game)\<lparr>inventory := [item_at 0 0 HEALTH_POTION 25]\<rparr>\<rparr>)
       (- 1) =
     Some (Inr (demo_game\<lparr>player := (player demo_game)\<lparr>p_hp := 120, inventory := []\<rparr>,
                          message_log := [(MsgHealed 30, Green)]\<rparr>))"
  by (simp add: use_item_def on_key_press_inventory_def demo_game_def new_player_def py_pos_def
      item_at_def log_add_def max_messages_def Let_def)

subsection \<open>Melee damage\<close>

lemma randint_val_range: "a \<le> b \<Longrightarrow> a \<le> randint_val R c a b \<and> randint_val R c a b \<le> b"
proof -
  assume ab: "a \<le> b"
  then have "0 < nat (b - a + 1)" by simp
  then have "R c mod nat (b - a + 1) < nat (b - a + 1)" by (rule mod_less_divisor)
  then have "int (R c mod nat (b - a + 1)) < b - a + 1" using ab by linarith
  then show ?thesis unfolding randint_val_def by simp
qed

lemma random_unit_range: "0 \<le> random_unit R c \<and> random_unit R c < 1"
proof -
  have "R c mod 2 ^ 53 < (2::nat) ^ 53" by simp
  then have "(of_nat (R c mod 2 ^ 53) :: rat) < of_nat (2 ^ 53)"
    unfolding of_nat_less_iff .
  then show ?thesis
    by (simp add: random_unit_def)
qed

lemma gain_exp_returns:
  "0 < p_exp_to_next p \<Longrightarrow> 3 * (p_exp p + amount) < 2 ^ 53 \<Longrightarrow>
     \<exists>b p' c'. gain_exp R p c amount = Some (Inr (b, p', c'))"
  using gain_exp_loop_returns[of "p\<lparr>p_exp := p_exp p + amount\<rparr>" R c False]
  unfolding gain_exp_def by auto

lemma attack_damage_pos: "1 \<le> attack_damage R g i"
  by (simp add: attack_damage_def max_def)

lemma attack_damage_formula:
  "attack_damage R g i =
     (if random_unit R (rnd g + 1) < 15 / 100 then 2 else 1) *
       max 1 (p_attack (player g)
              + (case eq_weapon (player g) of None \<Rightarrow> 0 | Some w \<Rightarrow> i_value w)
              - e_defense (enemies g ! i) + randint_val R (rnd g) (- 2) 2)"
  by (simp add: attack_damage_def get_total_attack_def)

lemma attack_enemy_enemies:
  assumes "attack_enemy R g i = Some (Inr g')"
  shows "enemies g' =
     (enemies g)[i := (enemies g ! i)\<lparr>e_hp := e_hp (enemies g ! i) - attack_damage R g i\<rparr>]"
  using assms
  by (auto simp: attack_enemy_def attack_damage_def Let_def
      split: if_splits option.splits sum.splits prod.splits)

lemma attack_enemy_returns:
  assumes "0 < p_exp_to_next (player g)"
    and "3 * (p_exp (player g) + exp_value (enemies g ! i)) < 2 ^ 53"
  shows "\<exists>g'. attack_enemy R g i = Some (Inr g')"
proof -
  obtain b p' c' where
    "gain_exp R (player g) (rnd g + 2) (exp_value (enemies g ! i)) = Some (Inr (b, p', c'))"
    using gain_exp_returns[OF assms] by blast
  then show ?thesis
    by (auto simp: attack_enemy_def Let_def)
qed

lemma enemy_act_attack:
  assumes "enemy_is_alive (enemies g ! i)"
    and "grid_get (visible (dungeon g)) (e_x (enemies g ! i)) (e_y (enemies g ! i)) = Inr True"
    and "fst (enemy_step R g (enemies g ! i)) = (p_x (player g), p_y (player g))"
  shows "\<exists>g'. enemy_act R g i = Inr g' \<and>
     p_hp (player g') = p_hp (player g) -
       max 1 (e_attack (enemies g ! i)
              - (p_defense (player g)
                 + ((case eq_armor (player g) of None \<Rightarrow> 0 | Some a \<Rightarrow> i_value a)
                    + (case eq_shield (player g) of None \<Rightarrow> 0 | Some s \<Rightarrow> i_value s)))
              + randint_val R (snd (enemy_step R g (enemies g ! i))) (- 2) 2)"
  using assms
  by (cases "enemy_step R g (enemies g ! i)")
     (auto simp: enemy_act_def get_total_defense_def Let_def)

text \<open>
  C1. Whenever the player's attack returns, it has lowered the hit points of the enemy by
  \<open>max(1, attack + weapon value - defense + v)\<close>, doubled when the draw of \<open>random()\<close> is
  below 0.15, where \<open>v\<close> is the draw of \<open>randint(-2, 2)\<close> and the weapon value is that of
  the equipped weapon, or 0; the loss is at least 1. The attack returns when the threshold
  is positive and the experience it may grant stays in the range where the float product
  of a level-up is exact. The draws lie in \<open>[-2, 2]\<close> and in \<open>[0, 1)\<close>. An enemy that is
  alive, on a visible tile, and steps onto the player's tile lowers the player's hit points
  by \<open>max(1, attack - (defense + armor value + shield value) + v)\<close> with no doubling; that
  loss is at least 1 too.
\<close>

theorem melee_damage_formula:
  assumes "i < length (enemies g)"
  shows
    "(\<forall>g'. attack_enemy R g i = Some (Inr g') \<longrightarrow>
        e_hp (enemies g ! i) - e_hp (enemies g' ! i) =
          (if random_unit R (rnd g + 1) < 15 / 100 then 2 else 1) *
            max 1 (p_attack (player g)
                   + (case eq_weapon (player g) of None \<Rightarrow> 0 | Some w \<Rightarrow> i_value w)
                   - e_defense (enemies g ! i) + randint_val R (rnd g) (- 2) 2) \<and>
        1 \<le> e_hp (enemies g ! i) - e_hp (enemies g' ! i)) \<and>
     (0 < p_exp_to_next (player g) \<and>
      3 * (p_exp (player g) + exp_value (enemies g ! i)) < 2 ^ 53
      \<longrightarrow> (\<exists>g'. attack_enemy R g i = Some (Inr g'))) \<and>
     (\<forall>c. - 2 \<le> randint_val R c (- 2) 2 \<and> randint_val R c (- 2) 2 \<le> 2 \<and>
          0 \<le> random_unit R c \<and> random_unit R c < 1) \<and>
     (enemy_is_alive (enemies g ! i) \<and>
      grid_get (visible (dungeon g)) (e_x (enemies g ! i)) (e_y (enemies g ! i)) = Inr True \<and>
      fst (enemy_step R g (enemies g ! i)) = (p_x (player g), p_y (player g))
      \<longrightarrow> (\<exists>g'. enemy_act R g i = Inr g' \<and>
             p_hp (player g) - p_hp (player g') =
               max 1 (e_attack (enemies g ! i)
                      - (p_defense (player g)
                         + ((case eq_armor (player g) of None \<Rightarrow> 0 | Some a \<Rightarrow> i_value a)
                            + (case eq_shield (player g) of None \<Rightarrow> 0 | Some s \<Rightarrow> i_value s)))
                      + randint_val R (snd (enemy_step R g (enemies g ! i))) (- 2) 2) \<and>
             1 \<le> p_hp (player g) - p_hp (player g')))"
proof (intro conjI allI impI)
  fix g'
  assume r: "attack_enemy R g i = Some (Inr g')"
  from attack_enemy_enemies[OF r] assms
  have "e_hp (enemies g ! i) - e_hp (enemies g' ! i) = attack_damage R g i"
    by simp
  then show "e_hp (enemies g ! i) - e_hp (enemies g' ! i) =
          (if random_unit R (rnd g + 1) < 15 / 100 then 2 else 1) *
            max 1 (p_attack (player g)
                   + (case eq_weapon (player g) of None \<Rightarrow> 0 | Some w \<Rightarrow> i_value w)
                   - e_defense (enemies g ! i) + randint_val R (rnd g) (- 2) 2)"
    and "1 \<le> e_hp (enemies g ! i) - e_hp (enemies g' ! i)"
    using attack_damage_pos[of R g i] by (simp_all only: attack_damage_formula)
next
  assume "0 < p_exp_to_next (player g) \<and>
      3 * (p_exp (player g) + exp_value (enemies g ! i)) < 2 ^ 53"
  then show "\<exists>g'. attack_enemy R g i = Some (Inr g')"
    using attack_enemy_returns[of g i R] by blast
next
  fix c
  show "- 2 \<le> randint_val R c (- 2) 2" "randint_val R c (- 2) 2 \<le> 2"
    "0 \<le> random_unit R c" "random_unit R c < 1"
    using randint_val_range[of "- 2" 2 R c] random_unit_range[of R c] by simp_all
next
  assume h: "enemy_is_alive (enemies g ! i) \<and>
      grid_get (visible (dungeon g)) (e_x (enemies g ! i)) (e_y (enemies g ! i)) = Inr True \<and>
      fst (enemy_step R g (enemies g ! i)) = (p_x (player g), p_y (player g))"
  from enemy_act_attack[of g i R] h obtain g' where
    g': "enemy_act R g i = Inr g'"
      "p_hp (player g') = p_hp (player g) -
       max 1 (e_attack (enemies g ! i)
              - (p_defense (player g)
                 + ((case eq_armor (player g) of None \<Rightarrow> 0 | Some a \<Rightarrow> i_value a)
                    + (case eq_shield (player g) of None \<Rightarrow> 0 | Some s \<Rightarrow> i_value s)))
              + randint_val R (snd (enemy_step R g (enemies g ! i))) (- 2) 2)"
    by blast
  show "\<exists>g'. enemy_act R g i = Inr g' \<and>
             p_hp (player g) - p_hp (player g') =
               max 1 (e_attack (enemies g ! i)
                      - (p_defense (player g)
                         + ((case eq_armor (player g) of None \<Rightarrow> 0 | Some a \<Rightarrow> i_value a)
                            + (case eq_shield (player g) of None \<Rightarrow> 0 | Some s \<Rightarrow> i_value s)))
                      + randint_val R (snd (enemy_step R g (enemies g ! i))) (- 2) 2) \<and>
             1 \<le> p_hp (player g) - p_hp (player g')"
    using g' by (intro exI[of _ g']) (simp add: max_def)
qed

lemma half_rng_draws:
  "random_unit half_rng c = 1 / 2" "randint_val half_rng c (- 2) 2 = - 1"
  by (simp_all add: half_rng_def const_rng_def random_unit_def randint_val_def)

lemma zero_rng_draws:
  "random_unit zero_rng c = 0" "randint_val zero_rng c (- 2) 2 = - 2"
  by (simp_all add: zero_rng_def random_unit_def randint_val_def)

lemma armed_game_fields:
  "enemies armed_game = [demon_at 3 2, rat_at 1 2]"
  "p_x (player armed_game) = 2" "p_y (player armed_game) = 2"
  "p_hp (player armed_game) = 120" "p_attack (player armed_game) = 15"
  "p_defense (player armed_game) = 3" "p_exp (player armed_game) = 0"
  "p_exp_to_next (player armed_game) = 100"
  "eq_weapon (player armed_game) = Some (item_at 0 0 SWORD 5)"
  "eq_armor (player armed_game) = Some (item_at 0 0 ARMOR 4)"
  "eq_shield (player armed_game) = Some (item_at 0 0 SHIELD 3)"
  "rnd armed_game = 0"
  by (simp_all add: armed_game_def demo_game_def new_player_def)

theorem melee_damage_formula_witness:
  "0 < length (enemies armed_game) \<and>
   0 < p_exp_to_next (player armed_game) \<and>
   3 * (p_exp (player armed_game) + exp_value (enemies armed_game ! 0)) < (2::int) ^ 53 \<and>
   enemy_is_alive (enemies armed_game ! 0) \<and>
   grid_get (visible (dungeon armed_game)) 3 2 = Inr True \<and>
   fst (enemy_step half_rng armed_game (enemies armed_game ! 0)) = (2, 2) \<and>
   (\<exists>g'. attack_enemy half_rng armed_game 0 = Some (Inr g') \<and> e_hp (enemies g' ! 0) = 69) \<and>
   (\<exists>g'. attack_enemy zero_rng armed_game 0 = Some (Inr g') \<and> e_hp (enemies g' ! 0) = 60) \<and>
   (\<exists>g'. enemy_act half_rng armed_game 0 = Inr g' \<and> p_hp (player g') = 111) \<and>
   1 < length (enemies armed_game) \<and>
   enemy_is_alive (enemies armed_game ! 1) \<and>
   grid_get (visible (dungeon armed_game)) 1 2 = Inr True \<and>
   fst (enemy_step half_rng armed_game (enemies armed_game ! 1)) = (2, 2) \<and>
   (\<exists>g'. enemy_act half_rng armed_game 1 = Inr g' \<and> p_hp (player g') = 119)"
proof -
  note f = armed_game_fields
  have e0: "enemies armed_game ! 0 = demon_at 3 2" by (simp add: f)
  have h1: "0 < length (enemies armed_game)" by (simp add: f)
  have h2: "0 < p_exp_to_next (player armed_game)"
    and h2': "3 * (p_exp (player armed_game) + exp_value (enemies armed_game ! 0)) < (2::int) ^ 53"
    and h3: "enemy_is_alive (enemies armed_game ! 0)"
    by (simp_all add: f demon_at_def enemy_is_alive_def)
  have h4: "grid_get (visible (dungeon armed_game)) 3 2 = Inr True"
    by (simp add: armed_game_def demo_game_def grid_get_def py_index_def py_pos_def
        set_cell_def grid_def MAP_WIDTH_def MAP_HEIGHT_def)
  have st: "enemy_step half_rng armed_game (enemies armed_game ! 0) = ((2, 2), 1)"
    by (simp add: enemy_step_def half_rng_draws Let_def f) (simp add: demon_at_def)
  have vals: "e_hp (enemies armed_game ! 0) = 80" "e_defense (enemies armed_game ! 0) = 8"
    "e_attack (enemies armed_game ! 0) = 20" "e_x (enemies armed_game ! 0) = 3"
    "e_y (enemies armed_game ! 0) = 2"
    by (simp_all add: f demon_at_def)
  note m_half = melee_damage_formula[OF h1, of half_rng]
  note m_zero = melee_damage_formula[OF h1, of zero_rng]
  from m_half h2 h2' obtain ga where ga: "attack_enemy half_rng armed_game 0 = Some (Inr ga)"
    by blast
  with m_half have "e_hp (enemies armed_game ! 0) - e_hp (enemies ga ! 0) =
          (if random_unit half_rng (rnd armed_game + 1) < 15 / 100 then 2 else 1) *
            max 1 (p_attack (player armed_game)
                   + (case eq_weapon (player armed_game) of None \<Rightarrow> 0 | Some w \<Rightarrow> i_value w)
                   - e_defense (enemies armed_game ! 0)
                   + randint_val half_rng (rnd armed_game) (- 2) 2)"
    by blast
  then have "e_hp (enemies ga ! 0) = 69"
    by (simp add: half_rng_draws vals f item_at_def demon_at_def)
  with ga have a: "\<exists>g'. attack_enemy half_rng armed_game 0 = Some (Inr g') \<and> e_hp (enemies g' ! 0) = 69"
    by blast
  from m_zero h2 h2' obtain gz where gz: "attack_enemy zero_rng armed_game 0 = Some (Inr gz)"
    by blast
  with m_zero have "e_hp (enemies armed_game ! 0) - e_hp (enemies gz ! 0) =
          (if random_unit zero_rng (rnd armed_game + 1) < 15 / 100 then 2 else 1) *
            max 1 (p_attack (player armed_game)
                   + (case eq_weapon (player armed_game) of None \<Rightarrow> 0 | Some w \<Rightarrow> i_value w)
                   - e_defense (enemies armed_game ! 0)
                   + randint_val zero_rng (rnd armed_game) (- 2) 2)"
    by blast
  then have "e_hp (enemies gz ! 0) = 60"
    by (simp add: zero_rng_draws vals f item_at_def demon_at_def)
  with gz have z: "\<exists>g'. attack_enemy zero_rng armed_game 0 = Some (Inr g') \<and> e_hp (enemies g' ! 0) = 60"
    by blast
  have "fst (enemy_step half_rng armed_game (enemies armed_game ! 0)) =
      (p_x (player armed_game), p_y (player armed_game))"
    unfolding st by (simp add: f)
  with m_half h3 h4 vals(4,5) obtain gb where gb: "enemy_act half_rng armed_game 0 = Inr gb"
    "p_hp (player armed_game) - p_hp (player gb) =
               max 1 (e_attack (enemies armed_game ! 0)
                      - (p_defense (player armed_game)
                         + ((case eq_armor (player armed_game) of None \<Rightarrow> 0 | Some a \<Rightarrow> i_value a)
                            + (case eq_shield (player armed_game) of None \<Rightarrow> 0 | Some s \<Rightarrow> i_value s)))
                      + randint_val half_rng (snd (enemy_step half_rng armed_game (enemies armed_game ! 0))) (- 2) 2)"
    by auto
  from gb(2) have "p_hp (player gb) = 111"
    by (simp add: half_rng_draws vals f item_at_def demon_at_def)
  with gb(1) have b: "\<exists>g'. enemy_act half_rng armed_game 0 = Inr g' \<and> p_hp (player g') = 111"
    by blast
  have k1: "1 < length (enemies armed_game)"
    and k3: "enemy_is_alive (enemies armed_game ! 1)"
    by (simp_all add: f rat_at_def enemy_is_alive_def)
  have k4: "grid_get (visible (dungeon armed_game)) 1 2 = Inr True"
    by (simp add: armed_game_def demo_game_def grid_get_def py_index_def py_pos_def
        set_cell_def grid_def MAP_WIDTH_def MAP_HEIGHT_def)
  have st1: "enemy_step half_rng armed_game (enemies armed_game ! 1) = ((2, 2), 1)"
    by (simp add: enemy_step_def half_rng_draws Let_def f) (simp add: rat_at_def)
  have vals1: "e_attack (enemies armed_game ! 1) = 4" "e_x (enemies armed_game ! 1) = 1"
    "e_y (enemies armed_game ! 1) = 2"
    by (simp_all add: f rat_at_def)
  have "fst (enemy_step half_rng armed_game (enemies armed_game ! 1)) =
      (p_x (player armed_game), p_y (player armed_game))"
    unfolding st1 by (simp add: f)
  with melee_damage_formula[OF k1, of half_rng] k3 k4 vals1(2,3)
  obtain gr where gr: "enemy_act half_rng armed_game 1 = Inr gr"
    "p_hp (player armed_game) - p_hp (player gr) =
               max 1 (e_attack (enemies armed_game ! 1)
                      - (p_defense (player armed_game)
                         + ((case eq_armor (player armed_game) of None \<Rightarrow> 0 | Some a \<Rightarrow> i_value a)
                            + (case eq_shield (player armed_game) of None \<Rightarrow> 0 | Some s \<Rightarrow> i_value s)))
                      + randint_val half_rng (snd (enemy_step half_rng armed_game (enemies armed_game ! 1))) (- 2) 2)"
    by auto
  from gr(2) have "p_hp (player gr) = 119"
    by (simp add: half_rng_draws vals1 f item_at_def rat_at_def)
  with gr(1) have r: "\<exists>g'. enemy_act half_rng armed_game 1 = Inr g' \<and> p_hp (player g') = 119"
    by blast
  from h1 h2 h2' h3 h4 st a z b k1 k3 k4 st1 r show ?thesis by simp
qed

subsection \<open>The inventory\<close>

text \<open>Removing, one by one, the entries of a list that satisfy a test leaves the others.\<close>

lemma fold_remove1_filter_aux:
  "\<forall>y\<in>set ys. \<not> P y \<Longrightarrow>
     fold remove1 (filter P xs) (ys @ xs) = ys @ filter (\<lambda>x. \<not> P x) xs"
proof (induction xs arbitrary: ys)
  case Nil
  then show ?case by simp
next
  case (Cons x xs)
  show ?case
  proof (cases "P x")
    case True
    with Cons.prems have "x \<notin> set ys" by blast
    then have "remove1 x (ys @ x # xs) = ys @ xs"
      by (simp add: remove1_append)
    with True Cons.IH[OF Cons.prems] show ?thesis by simp
  next
    case False
    with Cons.prems have "\<forall>y\<in>set (ys @ [x]). \<not> P y" by simp
    from Cons.IH[OF this] False show ?thesis by simp
  qed
qed

lemma fold_remove1_filter:
  "fold remove1 (filter P xs) xs = filter (\<lambda>x. \<not> P x) xs"
  using fold_remove1_filter_aux[of "[]" P xs] by simp

lemma pickup_step_position:
  "pickup_step item (p, lg, rem) = (p', lg', rem') \<Longrightarrow> p_x p' = p_x p \<and> p_y p' = p_y p"
  by (auto simp: pickup_step_def split: if_splits)

lemma pickup_step_bound:
  "pickup_step item (p, lg, rem) = (p', lg', rem') \<Longrightarrow> length (inventory p) \<le> 20
     \<Longrightarrow> length (inventory p') \<le> 20"
  by (auto simp: pickup_step_def split: if_splits)

lemma fold_pickup_bound:
  "length (inventory p) \<le> 20 \<Longrightarrow>
     length (inventory (fst (fold pickup_step its (p, lg, rem)))) \<le> 20"
proof (induction its arbitrary: p lg rem)
  case Nil
  then show ?case by simp
next
  case (Cons item its)
  obtain p' lg' rem' where st: "pickup_step item (p, lg, rem) = (p', lg', rem')"
    by (cases "pickup_step item (p, lg, rem)")
  from pickup_step_bound[OF st Cons.prems] have "length (inventory p') \<le> 20" .
  from Cons.IH[OF this] st show ?case by simp
qed

lemma fold_pickup_full:
  "length (inventory p) = 20 \<Longrightarrow>
     inventory (fst (fold pickup_step its (p, lg, rem))) = inventory p \<and>
     fst (snd (fold pickup_step its (p, lg, rem))) =
       fold (\<lambda>m l. log_add l m) (map full_inventory_entry (filter (on_tile p) its)) lg \<and>
     snd (snd (fold pickup_step its (p, lg, rem))) =
       rem @ filter (\<lambda>it. on_tile p it \<and> item_type it = GOLD) its"
proof (induction its arbitrary: p lg rem)
  case Nil
  then show ?case by simp
next
  case (Cons item its)
  show ?case
  proof (cases "on_tile p item")
    case False
    then have "pickup_step item (p, lg, rem) = (p, lg, rem)"
      by (auto simp: pickup_step_def on_tile_def)
    with Cons.IH[OF Cons.prems, of lg rem] False show ?thesis by simp
  next
    case True
    show ?thesis
    proof (cases "item_type item = GOLD")
      case gold: True
      let ?p = "p\<lparr>p_gold := p_gold p + i_value item\<rparr>"
      have st: "pickup_step item (p, lg, rem) =
                  (?p, log_add lg (MsgGold (i_value item), Gold), rem @ [item])"
        using True gold by (simp add: pickup_step_def on_tile_def)
      have same: "on_tile ?p = on_tile p" by (simp add: on_tile_def fun_eq_iff)
      have len: "length (inventory ?p) = 20" using Cons.prems by simp
      from Cons.IH[OF len, of "log_add lg (MsgGold (i_value item), Gold)" "rem @ [item]"]
      show ?thesis
        using True gold st by (simp add: same full_inventory_entry_def)
    next
      case other: False
      have st: "pickup_step item (p, lg, rem) = (p, log_add lg (MsgInventoryFull, Red), rem)"
        using True other Cons.prems by (simp add: pickup_step_def on_tile_def)
      from Cons.IH[OF Cons.prems, of "log_add lg (MsgInventoryFull, Red)" rem]
      show ?thesis
        using True other st by (simp add: full_inventory_entry_def)
    qed
  qed
qed

lemma pickup_items_bound:
  "length (inventory (player g)) \<le> 20 \<Longrightarrow> length (inventory (player (pickup_items g))) \<le> 20"
  using fold_pickup_bound[of "player g" "items g" "message_log g" "[]"]
  by (simp add: pickup_items_def case_prod_beta)

lemma pickup_items_full:
  assumes "length (inventory (player g)) = 20"
  shows "inventory (player (pickup_items g)) = inventory (player g)"
    and "items (pickup_items g) =
           filter (\<lambda>it. \<not> (on_tile (player g) it \<and> item_type it = GOLD)) (items g)"
    and "message_log (pickup_items g) =
           fold (\<lambda>m l. log_add l m)
             (map full_inventory_entry (filter (on_tile (player g)) (items g))) (message_log g)"
  using fold_pickup_full[OF assms, of "items g" "message_log g" "[]"]
  by (simp_all add: pickup_items_def case_prod_beta fold_remove1_filter)

text \<open>
  A property of the player that a level-up keeps is kept by \<open>gain_exp\<close>, whenever it
  returns.
\<close>

lemma gain_exp_loop_invariant:
  assumes ret: "gain_exp_loop R p c b = Some (Inr r)"
    and init: "Q p"
    and step: "\<And>R p c p' c'. Q p \<Longrightarrow>
        level_up R (p\<lparr>p_exp := p_exp p - p_exp_to_next p\<rparr>) c = Inr (p', c') \<Longrightarrow> Q p'"
  shows "Q (fst (snd r))"
proof -
  have "\<forall>v. (Inr r :: error + (bool \<times> Player \<times> nat)) = Inr v \<longrightarrow> Q p \<longrightarrow> Q (fst (snd v))"
  proof (rule gain_exp_loop.raw_induct
      [where P = "\<lambda>R p c b r. \<forall>v. r = Inr v \<longrightarrow> Q p \<longrightarrow> Q (fst (snd v))", OF _ ret])
    fix loop :: "(nat \<Rightarrow> nat) \<Rightarrow> Player \<Rightarrow> nat \<Rightarrow> bool \<Rightarrow> (error + (bool \<times> Player \<times> nat)) option"
    fix R p c b r
    assume IH: "\<And>R p c b r. loop R p c b = Some r \<Longrightarrow>
        \<forall>v. r = Inr v \<longrightarrow> Q p \<longrightarrow> Q (fst (snd v))"
    assume body: "(if p_exp_to_next p \<le> p_exp p
          then case level_up R (p\<lparr>p_exp := p_exp p - p_exp_to_next p\<rparr>) c of
                 Inl e \<Rightarrow> Some (Inl e)
               | Inr (p', c') \<Rightarrow> loop R p' c' True
          else Some (Inr (b, p, c))) = Some r"
    show "\<forall>v. r = Inr v \<longrightarrow> Q p \<longrightarrow> Q (fst (snd v))"
    proof (cases "p_exp p \<ge> p_exp_to_next p")
      case False
      with body show ?thesis by auto
    next
      case True
      show ?thesis
      proof (cases "level_up R (p\<lparr>p_exp := p_exp p - p_exp_to_next p\<rparr>) c")
        case (Inl e)
        with True body show ?thesis by auto
      next
        case (Inr qd)
        obtain q d where qd: "qd = (q, d)" by (cases qd)
        with Inr True body have "loop R q d True = Some r" by simp
        then have "\<forall>v. r = Inr v \<longrightarrow> Q q \<longrightarrow> Q (fst (snd v))" by (rule IH)
        moreover have "Q p \<Longrightarrow> Q q" using step[of p R c q d] Inr qd by simp
        ultimately show ?thesis by blast
      qed
    qed
  qed
  with init show ?thesis by blast
qed

lemma gain_exp_invariant:
  assumes "gain_exp R p c amount = Some (Inr (b, p', c'))"
    and "Q (p\<lparr>p_exp := p_exp p + amount\<rparr>)"
    and "\<And>R p c p' c'. Q p \<Longrightarrow>
        level_up R (p\<lparr>p_exp := p_exp p - p_exp_to_next p\<rparr>) c = Inr (p', c') \<Longrightarrow> Q p'"
  shows "Q p'"
  using gain_exp_loop_invariant[of R "p\<lparr>p_exp := p_exp p + amount\<rparr>" c False "(b, p', c')" Q] assms
  by (simp add: gain_exp_def)

lemma gain_exp_inventory:
  "gain_exp R p c amount = Some (Inr (b, p', c')) \<Longrightarrow> inventory p' = inventory p"
  by (erule gain_exp_invariant[where Q = "\<lambda>q. inventory q = inventory p"])
     (auto simp: level_up_def Let_def split: sum.splits)

lemma gain_exp_position:
  "gain_exp R p c amount = Some (Inr (b, p', c')) \<Longrightarrow> p_x p' = p_x p \<and> p_y p' = p_y p"
  by (erule gain_exp_invariant[where Q = "\<lambda>q. p_x q = p_x p \<and> p_y q = p_y p"])
     (auto simp: level_up_def Let_def split: sum.splits)

lemma scroll_hit_inventory:
  "scroll_hit R damage i (g, n) = Some (Inr (g', n')) \<Longrightarrow>
     inventory (player g') = inventory (player g)"
  by (auto simp: scroll_hit_def Let_def split: if_splits sum.splits option.splits
      dest: gain_exp_inventory)

lemma scroll_loop_inventory:
  "scroll_loop R damage js (g, n) = Some (Inr (g', n')) \<Longrightarrow>
     inventory (player g') = inventory (player g)"
proof (induction js arbitrary: g n)
  case Nil
  then show ?case by simp
next
  case (Cons i js)
  from Cons.prems obtain g1 n1 where h: "scroll_hit R damage i (g, n) = Some (Inr (g1, n1))"
    and r: "scroll_loop R damage js (g1, n1) = Some (Inr (g', n'))"
    by (auto split: option.splits sum.splits)
  from Cons.IH[OF r] scroll_hit_inventory[OF h] show ?case by simp
qed

lemma py_pos_less: "py_pos n i = Inr k \<Longrightarrow> k < n"
  by (auto simp: py_pos_def split: if_splits)

lemma equip_inventory: "inventory (equip p sl item) = inventory p"
  by (cases sl) simp_all

lemma equipped_equip: "equipped ((equip p sl item)\<lparr>inventory := xs\<rparr>) sl = Some item"
  by (cases sl) simp_all

lemma use_item_inventory_length:
  assumes "use_item R T g index = Some (Inr g')"
  shows "length (inventory (player g')) \<le> length (inventory (player g))"
proof (cases "index \<ge> int (length (inventory (player g)))")
  case True
  with assms show ?thesis by (simp add: use_item_def)
next
  case False
  with assms obtain k where k: "py_pos (length (inventory (player g))) index = Inr k"
    by (auto simp: use_item_def Let_def split: sum.splits)
  from py_pos_less[OF k] have kl: "k < length (inventory (player g))" .
  consider (hp) "item_type (inventory (player g) ! k) = HEALTH_POTION"
    | (mp) "item_type (inventory (player g) ! k) = MANA_POTION"
    | (fb) "item_type (inventory (player g) ! k) = SCROLL_FIREBALL"
    | (tp) "item_type (inventory (player g) ! k) = SCROLL_TELEPORT"
    | (eq) sl where "slot_of (item_type (inventory (player g) ! k)) = Some sl"
    | (gold) "item_type (inventory (player g) ! k) = GOLD"
    by (cases "item_type (inventory (player g) ! k)") auto
  then show ?thesis
  proof cases
    case hp
    with assms False k kl show ?thesis by (auto simp: use_item_def Let_def)
  next
    case mp
    with assms False k kl show ?thesis by (auto simp: use_item_def Let_def)
  next
    case fb
    with assms False k obtain g1 n1 where
      l: "scroll_loop R (i_value (inventory (player g) ! k) + p_magic (player g))
            [0..<length (enemies g)] (g, 0) = Some (Inr (g1, n1))"
      and g': "inventory (player g') = take k (inventory (player g)) @ drop (Suc k) (inventory (player g))"
      by (auto simp: use_item_def Let_def split: option.splits sum.splits)
    from g' kl show ?thesis by simp
  next
    case tp
    with assms False k kl show ?thesis
      by (auto simp: use_item_def Let_def split: if_splits prod.splits sum.splits)
  next
    case (eq sl)
    then have nt: "item_type (inventory (player g) ! k) \<noteq> HEALTH_POTION"
      "item_type (inventory (player g) ! k) \<noteq> MANA_POTION"
      "item_type (inventory (player g) ! k) \<noteq> SCROLL_FIREBALL"
      "item_type (inventory (player g) ! k) \<noteq> SCROLL_TELEPORT"
      by auto
    with assms False k kl eq show ?thesis
      by (auto simp: use_item_def Let_def equip_inventory split: option.splits)
  next
    case gold
    with assms False k kl show ?thesis by (auto simp: use_item_def Let_def)
  qed
qed

lemma use_item_equip:
  assumes "0 \<le> index" and "index < int (length (inventory (player g)))"
    and "slot_of (item_type (inventory (player g) ! nat index)) = Some sl"
  shows "\<exists>g'. use_item R T g index = Some (Inr g') \<and>
     equipped (player g') sl = Some (inventory (player g) ! nat index) \<and>
     inventory (player g') =
       take (nat index) (inventory (player g)) @ drop (Suc (nat index)) (inventory (player g)) @
       (case equipped (player g) sl of None \<Rightarrow> [] | Some old_item \<Rightarrow> [old_item])"
proof -
  from assms(1,2) have k: "py_pos (length (inventory (player g))) index = Inr (nat index)"
    by (simp add: py_pos_def)
  from assms(3) have nt: "item_type (inventory (player g) ! nat index) \<noteq> HEALTH_POTION"
      "item_type (inventory (player g) ! nat index) \<noteq> MANA_POTION"
      "item_type (inventory (player g) ! nat index) \<noteq> SCROLL_FIREBALL"
      "item_type (inventory (player g) ! nat index) \<noteq> SCROLL_TELEPORT"
    by auto
  show ?thesis
    using assms k nt
    by (cases "equipped (player g) sl")
       (simp_all add: use_item_def Let_def equip_inventory equipped_equip)
qed

text \<open>
  C7. From an inventory of at most 20 items, item pickup and item use leave at most 20.
  With exactly 20 items, pickup leaves the inventory as it was, takes only the gold on the
  player's tile off the floor, so that every other item stays there, and logs the
  inventory-full notice once for each such item. Equipping the item at a valid index puts
  it in its slot, removes it from the inventory and appends the item the slot held, if any:
  the length drops by one and rises by one for the returned item.
\<close>

theorem inventory_capacity:
  assumes "length (inventory (player g)) \<le> 20"
  shows
    "length (inventory (player (pickup_items g))) \<le> 20 \<and>
     (length (inventory (player g)) = 20 \<longrightarrow>
        inventory (player (pickup_items g)) = inventory (player g) \<and>
        items (pickup_items g) =
          filter (\<lambda>it. \<not> (on_tile (player g) it \<and> item_type it = GOLD)) (items g) \<and>
        message_log (pickup_items g) =
          fold (\<lambda>m l. log_add l m)
            (map full_inventory_entry (filter (on_tile (player g)) (items g))) (message_log g)) \<and>
     (\<forall>index g'. use_item R T g index = Some (Inr g') \<longrightarrow>
        length (inventory (player g')) \<le> 20) \<and>
     (\<forall>index sl. 0 \<le> index \<and> index < int (length (inventory (player g))) \<and>
        slot_of (item_type (inventory (player g) ! nat index)) = Some sl \<longrightarrow>
        (\<exists>g'. use_item R T g index = Some (Inr g') \<and>
           equipped (player g') sl = Some (inventory (player g) ! nat index) \<and>
           inventory (player g') =
             take (nat index) (inventory (player g)) @
             drop (Suc (nat index)) (inventory (player g)) @
             (case equipped (player g) sl of None \<Rightarrow> [] | Some old_item \<Rightarrow> [old_item]) \<and>
           length (inventory (player g')) =
             length (inventory (player g)) - 1 +
             (case equipped (player g) sl of None \<Rightarrow> 0 | Some old_item \<Rightarrow> 1)))"
proof (intro conjI allI impI)
  show "length (inventory (player (pickup_items g))) \<le> 20"
    using assms by (rule pickup_items_bound)
next
  assume "length (inventory (player g)) = 20"
  then show "inventory (player (pickup_items g)) = inventory (player g)"
    by (rule pickup_items_full)
next
  assume "length (inventory (player g)) = 20"
  then show "items (pickup_items g) =
          filter (\<lambda>it. \<not> (on_tile (player g) it \<and> item_type it = GOLD)) (items g)"
    by (rule pickup_items_full)
next
  assume "length (inventory (player g)) = 20"
  then show "message_log (pickup_items g) =
          fold (\<lambda>m l. log_add l m)
            (map full_inventory_entry (filter (on_tile (player g)) (items g))) (message_log g)"
    by (rule pickup_items_full)
next
  fix index g'
  assume "use_item R T g index = Some (Inr g')"
  from use_item_inventory_length[OF this] assms
  show "length (inventory (player g')) \<le> 20" by simp
next
  fix index sl
  assume h: "0 \<le> index \<and> index < int (length (inventory (player g))) \<and>
        slot_of (item_type (inventory (player g) ! nat index)) = Some sl"
  then have k: "nat index < length (inventory (player g))" by linarith
  from h use_item_equip[of index g sl R T]
  obtain g' where g': "use_item R T g index = Some (Inr g')"
    "equipped (player g') sl = Some (inventory (player g) ! nat index)"
    "inventory (player g') =
             take (nat index) (inventory (player g)) @
             drop (Suc (nat index)) (inventory (player g)) @
             (case equipped (player g) sl of None \<Rightarrow> [] | Some old_item \<Rightarrow> [old_item])"
    by blast
  have "length (inventory (player g')) =
             length (inventory (player g)) - 1 +
             (case equipped (player g) sl of None \<Rightarrow> 0 | Some old_item \<Rightarrow> 1)"
    unfolding g'(3) using k by (simp split: option.splits)
  with g' show "\<exists>g'. use_item R T g index = Some (Inr g') \<and>
           equipped (player g') sl = Some (inventory (player g) ! nat index) \<and>
           inventory (player g') =
             take (nat index) (inventory (player g)) @
             drop (Suc (nat index)) (inventory (player g)) @
             (case equipped (player g) sl of None \<Rightarrow> [] | Some old_item \<Rightarrow> [old_item]) \<and>
           length (inventory (player g')) =
             length (inventory (player g)) - 1 +
             (case equipped (player g) sl of None \<Rightarrow> 0 | Some old_item \<Rightarrow> 1)"
    by blast
qed

theorem inventory_capacity_witness:
  "length (inventory (player full_game)) = 20 \<and>
   inventory (player (pickup_items full_game)) = replicate 20 (item_at 0 0 HEALTH_POTION 25) \<and>
   items (pickup_items full_game) = [item_at 2 2 SWORD 5, item_at 5 5 RING 2] \<and>
   message_log (pickup_items full_game) = [(MsgInventoryFull, Red), (MsgGold 12, Gold)] \<and>
   length (inventory (player equip_game)) = 1 \<and>
   (\<exists>g'. use_item zero_rng axis_trig equip_game 0 = Some (Inr g') \<and>
      eq_weapon (player g') = Some (item_at 0 0 SWORD 7) \<and>
      inventory (player g') = [item_at 0 0 SWORD 5])"
proof -
  have l: "length (inventory (player full_game)) \<le> 20"
    and l20: "length (inventory (player full_game)) = 20"
    by (simp_all add: full_game_def demo_game_def)
  have le: "length (inventory (player equip_game)) \<le> 20"
    and le1: "length (inventory (player equip_game)) = 1"
    by (simp_all add: equip_game_def demo_game_def)
  from inventory_capacity[OF l, of zero_rng axis_trig] l20
  have a: "inventory (player (pickup_items full_game)) = inventory (player full_game)"
    and b: "items (pickup_items full_game) =
          filter (\<lambda>it. \<not> (on_tile (player full_game) it \<and> item_type it = GOLD)) (items full_game)"
    and c: "message_log (pickup_items full_game) =
          fold (\<lambda>m l. log_add l m)
            (map full_inventory_entry (filter (on_tile (player full_game)) (items full_game)))
            (message_log full_game)"
    by blast+
  have a': "inventory (player (pickup_items full_game)) = replicate 20 (item_at 0 0 HEALTH_POTION 25)"
    unfolding a by (simp add: full_game_def demo_game_def)
  have b': "items (pickup_items full_game) = [item_at 2 2 SWORD 5, item_at 5 5 RING 2]"
    unfolding b
    by (simp add: full_game_def demo_game_def new_player_def on_tile_def item_at_def)
  have c': "message_log (pickup_items full_game) = [(MsgInventoryFull, Red), (MsgGold 12, Gold)]"
    unfolding c
    by (simp add: full_game_def demo_game_def new_player_def on_tile_def item_at_def
        full_inventory_entry_def log_add_def max_messages_def)
  have sl: "0 \<le> (0::int) \<and> 0 < int (length (inventory (player equip_game))) \<and>
        slot_of (item_type (inventory (player equip_game) ! nat 0)) = Some Weapon"
    by (simp add: equip_game_def demo_game_def item_at_def)
  from inventory_capacity[OF le, of zero_rng axis_trig] sl
  obtain g' where g': "use_item zero_rng axis_trig equip_game 0 = Some (Inr g')"
    "equipped (player g') Weapon = Some (inventory (player equip_game) ! nat 0)"
    "inventory (player g') =
             take (nat 0) (inventory (player equip_game)) @
             drop (Suc (nat 0)) (inventory (player equip_game)) @
             (case equipped (player equip_game) Weapon of None \<Rightarrow> [] | Some old_item \<Rightarrow> [old_item])"
    by blast
  from g'(2) have w: "eq_weapon (player g') = Some (item_at 0 0 SWORD 7)"
    by (simp add: equip_game_def demo_game_def)
  from g'(3) have i: "inventory (player g') = [item_at 0 0 SWORD 5]"
    by (simp add: equip_game_def demo_game_def)
  from l20 a' b' c' le1 g'(1) w i show ?thesis by blast
qed

subsection \<open>Hit points and mana\<close>

lemma level_up_bounded:
  "player_bounded p \<Longrightarrow>
     level_up R (p\<lparr>p_exp := p_exp p - p_exp_to_next p\<rparr>) c = Inr (p', c') \<Longrightarrow>
     player_bounded p'"
  using randint_val_range[of 3 10 R "c + 1"]
  by (auto simp: player_bounded_def level_up_def Let_def split: sum.splits)

lemma gain_exp_bounded:
  "gain_exp R p c amount = Some (Inr (b, p', c')) \<Longrightarrow> player_bounded p \<Longrightarrow> player_bounded p'"
  by (erule gain_exp_invariant[where Q = player_bounded])
     (simp add: player_bounded_def, erule (1) level_up_bounded)

lemma list_all_update:
  assumes "list_all P xs" and "i < length xs \<Longrightarrow> P v"
  shows "list_all P (xs[i := v])"
proof (cases "i < length xs")
  case True
  with assms(2) have "P v" by simp
  with assms(1) set_update_subset_insert[of xs i v] show ?thesis
    by (auto simp: list_all_iff)
next
  case False
  then have "xs[i := v] = xs" by (simp add: list_update_beyond)
  with assms(1) show ?thesis by simp
qed

lemma stats_bounded_iff:
  "stats_bounded g \<longleftrightarrow> player_bounded (player g) \<and> list_all (\<lambda>e. e_hp e \<le> e_max_hp e) (enemies g)"
  by (auto simp: stats_bounded_def player_bounded_def)

lemma attack_enemy_player:
  assumes "attack_enemy R g i = Some (Inr g')" and "player_bounded (player g)"
  shows "player_bounded (player g')"
proof -
  have "\<forall>b p' c'. gain_exp R (player g) (rnd g + 2) (exp_value (enemies g ! i)) = Some (Inr (b, p', c'))
      \<longrightarrow> player_bounded p'"
    using gain_exp_bounded[OF _ assms(2)] by blast
  with assms show ?thesis
    by (auto simp: attack_enemy_def Let_def player_bounded_def
      split: if_splits option.splits sum.splits prod.splits)
qed

lemma attack_enemy_bounded:
  assumes "attack_enemy R g i = Some (Inr g')" "stats_bounded g" "i < length (enemies g)"
  shows "stats_bounded g'"
proof -
  let ?e = "(enemies g ! i)\<lparr>e_hp := e_hp (enemies g ! i) - attack_damage R g i\<rparr>"
  have "e_hp (enemies g ! i) \<le> e_max_hp (enemies g ! i)"
    using assms(2,3) by (simp add: stats_bounded_def list_all_length)
  with attack_damage_pos[of R g i] have e: "e_hp ?e \<le> e_max_hp ?e" by simp
  have es: "list_all (\<lambda>e. e_hp e \<le> e_max_hp e) ((enemies g)[i := ?e])"
    using assms(2) e by (intro list_all_update) (simp_all add: stats_bounded_def)
  have pb: "player_bounded (player g)" using assms(2) by (simp add: stats_bounded_iff)
  from attack_enemy_enemies[OF assms(1)] attack_enemy_player[OF assms(1) pb] es
  show ?thesis by (simp add: stats_bounded_iff)
qed

lemma enemy_hp_le:
  "stats_bounded g \<Longrightarrow> i < length (enemies g) \<Longrightarrow> e_hp (enemies g ! i) \<le> e_max_hp (enemies g ! i)"
  by (simp add: stats_bounded_def list_all_length)

lemma enemy_act_bounded:
  assumes "enemy_act R g i = Inr g'" and "stats_bounded g"
  shows "stats_bounded g'"
proof -
  have mv: "list_all (\<lambda>e. e_hp e \<le> e_max_hp e) ((enemies g)[i := (enemies g ! i)\<lparr>e_x := a, e_y := b\<rparr>])"
    for a b
    using assms(2) by (intro list_all_update) (simp_all add: stats_bounded_def list_all_length)
  from assms mv show ?thesis
    by (auto simp: enemy_act_def Let_def stats_bounded_def max_def
        split: if_splits sum.splits prod.splits)
qed

lemma enemy_turn_loop_bounded:
  "enemy_turn_loop R js g = Inr g' \<Longrightarrow> stats_bounded g \<Longrightarrow> stats_bounded g'"
proof (induction js arbitrary: g)
  case Nil
  then show ?case by simp
next
  case (Cons i js)
  from Cons.prems(1) obtain g1 where a: "enemy_act R g i = Inr g1"
    and l: "enemy_turn_loop R js g1 = Inr g'"
    by (auto split: sum.splits)
  from Cons.IH[OF l enemy_act_bounded[OF a Cons.prems(2)]] show ?case .
qed

lemma enemy_turn_bounded:
  "enemy_turn R g = Inr g' \<Longrightarrow> stats_bounded g \<Longrightarrow> stats_bounded g'"
  unfolding enemy_turn_def by (rule enemy_turn_loop_bounded)

lemma scroll_hit_bounded:
  assumes "scroll_hit R damage i (g, n) = Some (Inr (g', n'))" and "stats_bounded g"
    and "0 \<le> damage"
  shows "stats_bounded g'"
proof -
  have hit: "list_all (\<lambda>e. e_hp e \<le> e_max_hp e)
               ((enemies g)[i := (enemies g ! i)\<lparr>e_hp := e_hp (enemies g ! i) - damage\<rparr>])"
    using assms(2,3) enemy_hp_le[of g i] by (intro list_all_update) (simp_all add: stats_bounded_def)
  have pb: "player_bounded (player g)" using assms(2) by (simp add: stats_bounded_iff)
  have ge: "\<And>b p' c' c a. gain_exp R (player g) c a = Some (Inr (b, p', c')) \<Longrightarrow> player_bounded p'"
    using gain_exp_bounded[OF _ pb] by blast
  from assms(1,2) hit show ?thesis
    by (auto simp: scroll_hit_def Let_def stats_bounded_iff dest: ge
        split: if_splits sum.splits option.splits prod.splits)
qed

lemma scroll_loop_bounded:
  "scroll_loop R damage js (g, n) = Some (Inr (g', n')) \<Longrightarrow> stats_bounded g \<Longrightarrow> 0 \<le> damage
     \<Longrightarrow> stats_bounded g'"
proof (induction js arbitrary: g n)
  case Nil
  then show ?case by simp
next
  case (Cons i js)
  from Cons.prems(1) obtain g1 n1 where h: "scroll_hit R damage i (g, n) = Some (Inr (g1, n1))"
    and r: "scroll_loop R damage js (g1, n1) = Some (Inr (g', n'))"
    by (auto split: option.splits sum.splits)
  from Cons.IH[OF r scroll_hit_bounded[OF h Cons.prems(2,3)] Cons.prems(3)] show ?case .
qed

lemma equip_stats:
  "p_hp (equip p sl item) = p_hp p" "p_max_hp (equip p sl item) = p_max_hp p"
  "p_mana (equip p sl item) = p_mana p" "p_max_mana (equip p sl item) = p_max_mana p"
  by (cases sl; simp)+

lemma use_item_bounded:
  assumes "use_item R T g index = Some (Inr g')" and "stats_bounded g" and "stats_nonneg g"
  shows "stats_bounded g'"
proof (cases "index \<ge> int (length (inventory (player g)))")
  case True
  with assms show ?thesis by (simp add: use_item_def)
next
  case False
  with assms obtain k where k: "py_pos (length (inventory (player g))) index = Inr k"
    by (auto simp: use_item_def Let_def split: sum.splits)
  from py_pos_less[OF k] have kl: "k < length (inventory (player g))" .
  with assms(3) have v: "0 \<le> i_value (inventory (player g) ! k)"
    and lv: "0 \<le> p_level (player g)" and mg: "0 \<le> p_magic (player g)"
    by (simp_all add: stats_nonneg_def list_all_length)
  consider (hp) "item_type (inventory (player g) ! k) = HEALTH_POTION"
    | (mp) "item_type (inventory (player g) ! k) = MANA_POTION"
    | (fb) "item_type (inventory (player g) ! k) = SCROLL_FIREBALL"
    | (tp) "item_type (inventory (player g) ! k) = SCROLL_TELEPORT"
    | (eq) sl where "slot_of (item_type (inventory (player g) ! k)) = Some sl"
    | (gold) "item_type (inventory (player g) ! k) = GOLD"
    by (cases "item_type (inventory (player g) ! k)") auto
  then show ?thesis
  proof cases
    case hp
    with assms(1,2) False k show ?thesis
      by (auto simp: use_item_def Let_def stats_bounded_def)
  next
    case mp
    with assms(1,2) False k v lv show ?thesis
      by (auto simp: use_item_def Let_def stats_bounded_def)
  next
    case fb
    with assms(1) False k obtain g1 n1 where
      l: "scroll_loop R (i_value (inventory (player g) ! k) + p_magic (player g))
            [0..<length (enemies g)] (g, 0) = Some (Inr (g1, n1))"
      and g': "g' = g1\<lparr>player := (player g1)\<lparr>inventory :=
                  take k (inventory (player g)) @ drop (Suc k) (inventory (player g))\<rparr>,
                message_log := log_add (message_log g1) (MsgScrollFireball n1, Orange)\<rparr>"
      by (auto simp: use_item_def Let_def split: option.splits sum.splits)
    from v mg have "0 \<le> i_value (inventory (player g) ! k) + p_magic (player g)" by simp
    from scroll_loop_bounded[OF l assms(2) this] show ?thesis
      unfolding g' by (simp add: stats_bounded_def)
  next
    case tp
    with assms(1,2) False k show ?thesis
      by (auto simp: use_item_def Let_def stats_bounded_def split: if_splits prod.splits sum.splits)
  next
    case (eq sl)
    then have nt: "item_type (inventory (player g) ! k) \<noteq> HEALTH_POTION"
      "item_type (inventory (player g) ! k) \<noteq> MANA_POTION"
      "item_type (inventory (player g) ! k) \<noteq> SCROLL_FIREBALL"
      "item_type (inventory (player g) ! k) \<noteq> SCROLL_TELEPORT"
      by auto
    with assms(1,2) False k eq show ?thesis
      by (auto simp: use_item_def Let_def stats_bounded_def equip_stats split: option.splits)
  next
    case gold
    with assms(1,2) False k show ?thesis by (auto simp: use_item_def Let_def)
  qed
qed

lemma cast_spell_bounded:
  assumes "cast_spell R g spell_type = Some (Inr g')" and "stats_bounded g" and "stats_nonneg g"
  shows "stats_bounded g'"
proof -
  have mg: "0 \<le> p_magic (player g)" using assms(3) by (simp add: stats_nonneg_def)
  have hit: "list_all (\<lambda>e. e_hp e \<le> e_max_hp e)
               ((enemies g)[i := (enemies g ! i)\<lparr>e_hp := e_hp (enemies g ! i) - (20 + p_magic (player g) * 2)\<rparr>])"
    for i
    using assms(2) mg enemy_hp_le[of g i] by (intro list_all_update) (simp_all add: stats_bounded_def)
  have pb: "player_bounded ((player g)\<lparr>p_mana := p_mana (player g) - 30\<rparr>)"
    if "30 \<le> p_mana (player g)"
    using assms(2) that by (simp add: stats_bounded_iff player_bounded_def)
  have ge: "\<And>b p' c' c a. 30 \<le> p_mana (player g) \<Longrightarrow>
      gain_exp R ((player g)\<lparr>p_mana := p_mana (player g) - 30\<rparr>) c a = Some (Inr (b, p', c'))
      \<Longrightarrow> player_bounded p'"
    using gain_exp_bounded[OF _ pb] by blast
  show ?thesis
  proof (cases "spell_type = ''heal''")
    case True
    with assms(1,2) show ?thesis
      by (auto simp: cast_spell_def Let_def stats_bounded_def split: if_splits)
  next
    case nh: False
    show ?thesis
    proof (cases "spell_type = ''fireball''")
      case False
      with nh assms(1,2) show ?thesis by (simp add: cast_spell_def)
    next
      case True
      with assms(1,2) hit pb show ?thesis
        by (auto simp: cast_spell_def Let_def stats_bounded_iff dest: ge
            split: if_splits sum.splits option.splits prod.splits)
    qed
  qed
qed

text \<open>
  A critical hit of 24 on a rat with 15 hit points: the rat is left with -9.
\<close>

lemma attack_eval:
  "attack_enemy zero_rng melee_game 0 =
     Some (Inr (melee_game\<lparr>enemies := [(rat_at 3 2)\<lparr>e_hp := - 9\<rparr>],
        message_log := [(MsgCrit (TemplateName ''rat'') 24, Orange),
                        (MsgDefeated (TemplateName ''rat'') 10, Yellow), (MsgGold 5, Gold)],
        particle_effects := [\<lparr>pt_x = 96, pt_y = 64, pt_damage = 24, pt_color = Orange, pt_life = 30\<rparr>],
        player := (player melee_game)\<lparr>p_exp := 10, p_gold := 5\<rparr>,
        rnd := 4\<rparr>))"
  by (simp add: attack_enemy_def melee_game_def demo_game_def new_player_def rat_at_def
      zero_rng_def random_unit_def randint_val_def get_total_attack_def enemy_is_alive_def
      gain_exp_def gain_exp_loop.simps log_add_def max_messages_def TILE_SIZE_def Let_def)

theorem hp_below_zero_counterexample:
  "stats_bounded melee_game \<and>
   enemy_hp_after (attack_enemy zero_rng melee_game 0) 0 = Some (- 9)"
  by (simp add: attack_eval enemy_hp_after_def)
     (simp add: stats_bounded_def melee_game_def demo_game_def new_player_def rat_at_def)

text \<open>
  C6 (amended). The player's attack, the enemy turn, the use of an item and the casting of
  a spell keep the hit points of the player and of every enemy at or below their maximum
  and the mana between 0 and its maximum, provided the level, the magic power and the
  values of the items in the inventory are not negative. Nothing is said of a lower bound
  on hit points: damage is subtracted as it is.
\<close>

theorem stats_stay_bounded:
  assumes "stats_bounded g" and "stats_nonneg g"
  shows
    "(\<forall>i g'. i < length (enemies g) \<and> attack_enemy R g i = Some (Inr g') \<longrightarrow> stats_bounded g') \<and>
     (\<forall>g'. enemy_turn R g = Inr g' \<longrightarrow> stats_bounded g') \<and>
     (\<forall>index g'. use_item R T g index = Some (Inr g') \<longrightarrow> stats_bounded g') \<and>
     (\<forall>spell_type g'. cast_spell R g spell_type = Some (Inr g') \<longrightarrow> stats_bounded g')"
  using assms attack_enemy_bounded enemy_turn_bounded use_item_bounded cast_spell_bounded
  by blast

theorem stats_stay_bounded_witness:
  "stats_bounded melee_game \<and> stats_nonneg melee_game \<and>
   (\<exists>g'. attack_enemy zero_rng melee_game 0 = Some (Inr g') \<and> stats_bounded g' \<and>
          e_hp (enemies g' ! 0) = - 9 \<and> e_max_hp (enemies g' ! 0) = 15)"
proof -
  have b: "stats_bounded melee_game" and n: "stats_nonneg melee_game"
    by (simp_all add: stats_bounded_def stats_nonneg_def melee_game_def demo_game_def
        new_player_def rat_at_def)
  have l: "0 < length (enemies melee_game)"
    by (simp add: melee_game_def demo_game_def)
  obtain g' where g': "attack_enemy zero_rng melee_game 0 = Some (Inr g')"
    using attack_eval by blast
  from stats_stay_bounded[OF b n, of zero_rng axis_trig] l g'
  have "stats_bounded g'" by blast
  moreover from g' have "e_hp (enemies g' ! 0) = - 9" "e_max_hp (enemies g' ! 0) = 15"
    by (auto simp: attack_eval rat_at_def)
  ultimately show ?thesis using b n g' by blast
qed

subsection \<open>Dungeon generation\<close>

lemma grid_dims_nth:
  "grid_dims g w h \<Longrightarrow> 0 \<le> x \<Longrightarrow> x < w \<Longrightarrow>
     nat x < length g \<and> int (length (g ! nat x)) = max 0 h"
  by (auto simp: grid_dims_def list_all_length)

lemma grid_dims_grid: "grid_dims (grid w h v) w h"
  by (auto simp: grid_dims_def grid_def list_all_length)

lemma grid_dims_set_cell: "grid_dims g w h \<Longrightarrow> grid_dims (set_cell g x y v) w h"
proof (cases "nat x < length g")
  case True
  assume "grid_dims g w h"
  with True show ?thesis
    by (auto simp: grid_dims_def set_cell_def list_all_length nth_list_update)
next
  case False
  assume "grid_dims g w h"
  with False show ?thesis
    by (simp add: set_cell_def list_update_beyond)
qed

lemma get_set_cell:
  assumes "grid_dims g w h" "0 \<le> x" "x < w" "0 \<le> y" "y < h" "0 \<le> x'" "0 \<le> y'"
  shows "get_cell (set_cell g x y v) x' y' = (if x' = x \<and> y' = y then v else get_cell g x' y')"
proof -
  from grid_dims_nth[OF assms(1,2,3)] assms(4,5)
  have l: "nat x < length g" "int (length (g ! nat x)) = h"
    by simp_all
  then have ly: "nat y < length (g ! nat x)" using assms(4,5) by linarith
  show ?thesis
  proof (cases "x' = x")
    case True
    with l ly assms show ?thesis
      by (auto simp: get_cell_def set_cell_def nth_list_update)
  next
    case False
    with assms have "nat x' \<noteq> nat x" by linarith
    with False show ?thesis
      by (simp add: get_cell_def set_cell_def nth_list_update)
  qed
qed

lemma get_grid: "0 \<le> x \<Longrightarrow> x < w \<Longrightarrow> 0 \<le> y \<Longrightarrow> y < h \<Longrightarrow> get_cell (grid w h v) x y = v"
  by (simp add: get_cell_def grid_def)

lemma carve_inv_carve: "carve_inv w h rs d \<Longrightarrow> carve_inv w h rs (carve d x y)"
  by (auto simp: carve_inv_def tiles_plain_def carve_def in_bounds_def grid_dims_set_cell
      get_set_cell split: if_splits)

lemma fold_keeps: "(\<And>x s. P s \<Longrightarrow> P (f x s)) \<Longrightarrow> P s \<Longrightarrow> P (fold f xs s)"
  by (induction xs arbitrary: s) simp_all

lemma carve_inv_create_room: "carve_inv w h rs d \<Longrightarrow> carve_inv w h rs (create_room d room)"
  unfolding create_room_def
  by (auto split: prod.splits intro!: fold_keeps carve_inv_carve)

lemma carve_inv_h_tunnel: "carve_inv w h rs d \<Longrightarrow> carve_inv w h rs (create_h_tunnel d x1 x2 y)"
  unfolding create_h_tunnel_def by (auto intro!: fold_keeps carve_inv_carve)

lemma carve_inv_v_tunnel: "carve_inv w h rs d \<Longrightarrow> carve_inv w h rs (create_v_tunnel d y1 y2 x)"
  unfolding create_v_tunnel_def by (auto intro!: fold_keeps carve_inv_carve)

lemma grid_set_in_bounds:
  assumes "grid_dims g w h" "0 \<le> x" "x < w" "0 \<le> y" "y < h"
  shows "grid_set g x y v = Inr (set_cell g x y v)"
proof -
  from grid_dims_nth[OF assms(1,2,3)] assms(4,5)
  have l: "nat x < length g" "int (length (g ! nat x)) = h"
    by simp_all
  then have "x < int (length g)" "y < int (length (g ! nat x))"
    using assms by linarith+
  with assms(2,4) show ?thesis
    by (simp add: grid_set_def py_index_def py_store_def py_pos_def set_cell_def)
qed

lemma center_on_grid_cong:
  "d_width d' = d_width d \<Longrightarrow> d_height d' = d_height d \<Longrightarrow>
     center_on_grid d' = center_on_grid d"
  by (simp add: center_on_grid_def in_bounds_def fun_eq_iff)

lemma new_room_center:
  assumes "1 \<le> x" "x \<le> W - w - 2" "5 \<le> w" "w \<le> 12"
    and "1 \<le> y" "y \<le> H - h - 2" "5 \<le> h" "h \<le> 12"
    and "d_width d = W" "d_height d = H"
  shows "center_on_grid d \<lparr>r_x = x, r_y = y, r_width = w, r_height = h\<rparr>"
  using assms by (simp add: center_on_grid_def in_bounds_def center_def) linarith

lemma try_room_cases:
  assumes "try_room R d c = Inr (d', c')" and "gen_inv W H d"
  shows "gen_inv W H d' \<and> (rooms d' = rooms d \<and> rooms d \<noteq> [] \<or> (\<exists>r. rooms d' = rooms d @ [r]))"
proof -
  let ?w = "randint_val R c ROOM_MIN_SIZE ROOM_MAX_SIZE"
  let ?h = "randint_val R (c + 1) ROOM_MIN_SIZE ROOM_MAX_SIZE"
  have wr: "5 \<le> ?w" "?w \<le> 12" and hr: "5 \<le> ?h" "?h \<le> 12"
    using randint_val_range[of ROOM_MIN_SIZE ROOM_MAX_SIZE R]
    by (simp_all add: ROOM_MIN_SIZE_def ROOM_MAX_SIZE_def)
  have dims: "d_width d = W" "d_height d = H" and tp: "tiles_plain d"
    and cs: "list_all (center_on_grid d) (rooms d)"
    using assms(2) by (simp_all add: gen_inv_def)
  from assms(1) obtain x c3 where x: "randint R (c + 2) 1 (d_width d - ?w - 2) = Inr (x, c3)"
    by (auto simp: try_room_def Let_def split: sum.splits)
  with assms(1) obtain y c4 where y: "randint R c3 1 (d_height d - ?h - 2) = Inr (y, c4)"
    by (auto simp: try_room_def Let_def split: sum.splits)
  from x have xr: "1 \<le> x" "x \<le> W - ?w - 2"
    using randint_val_range[of 1 "d_width d - ?w - 2" R "c + 2"] dims
    by (auto simp: randint_def split: if_splits)
  from y have yr: "1 \<le> y" "y \<le> H - ?h - 2"
    using randint_val_range[of 1 "d_height d - ?h - 2" R c3] dims
    by (auto simp: randint_def split: if_splits)
  let ?new = "\<lparr>r_x = x, r_y = y, r_width = ?w, r_height = ?h\<rparr>"
  have nc: "center_on_grid d ?new"
    by (rule new_room_center[OF xr wr yr hr dims])
  show ?thesis
  proof (cases "list_ex (intersects ?new) (rooms d)")
    case True
    then have "rooms d \<noteq> []" by auto
    with True assms x y show ?thesis
      by (auto simp: try_room_def Let_def)
  next
    case False
    have ci: "carve_inv W H (rooms d) d"
      using tp dims by (simp add: carve_inv_def)
    let ?d1 = "create_room d ?new"
    have c1: "carve_inv W H (rooms d) ?d1"
      using ci by (rule carve_inv_create_room)
    have keep: "gen_inv W H (d2\<lparr>rooms := rooms d2 @ [?new]\<rparr>) \<and>
        (\<exists>r. rooms (d2\<lparr>rooms := rooms d2 @ [?new]\<rparr>) = rooms d @ [r])"
      if "carve_inv W H (rooms d) d2" for d2
    proof -
      from that have e: "tiles_plain d2" "d_width d2 = W" "d_height d2 = H" "rooms d2 = rooms d"
        by (simp_all add: carve_inv_def)
      have cg: "center_on_grid (d2\<lparr>rooms := rooms d2 @ [?new]\<rparr>) = center_on_grid d"
        using e dims by (intro center_on_grid_cong) simp_all
      have "tiles_plain (d2\<lparr>rooms := rooms d2 @ [?new]\<rparr>)"
        using e(1) by (simp add: tiles_plain_def in_bounds_def)
      with e cs nc cg show ?thesis
        by (simp add: gen_inv_def)
    qed
    show ?thesis
    proof (cases "rooms d = []")
      case True
      then have "rooms ?d1 = []" using c1 by (simp add: carve_inv_def)
      with False assms(1) x y have "d' = ?d1\<lparr>rooms := rooms ?d1 @ [?new]\<rparr>"
        by (auto simp: try_room_def Let_def)
      with keep[OF c1] show ?thesis by blast
    next
      case ne: False
      then have r1: "rooms ?d1 \<noteq> []" using c1 by (simp add: carve_inv_def)
      obtain px py where p: "center (last (rooms ?d1)) = (px, py)"
        by (cases "center (last (rooms ?d1))")
      obtain nx ny where n: "center ?new = (nx, ny)"
        by (cases "center ?new")
      let ?d2 = "(if random_unit R c4 < 1 / 2
                  then create_v_tunnel (create_h_tunnel ?d1 px nx py) py ny nx
                  else create_h_tunnel (create_v_tunnel ?d1 py ny px) px nx ny)"
      have c2: "carve_inv W H (rooms d) ?d2"
        using c1 by (simp add: carve_inv_h_tunnel carve_inv_v_tunnel)
      from False assms(1) x y r1 p n have "d' = ?d2\<lparr>rooms := rooms ?d2 @ [?new]\<rparr>"
        by (auto simp: try_room_def Let_def)
      with keep[OF c2] show ?thesis by blast
    qed
  qed
qed

lemma try_room_returns:
  assumes "15 \<le> d_width d" "15 \<le> d_height d"
  shows "\<exists>d' c'. try_room R d c = Inr (d', c')"
proof -
  let ?w = "randint_val R c ROOM_MIN_SIZE ROOM_MAX_SIZE"
  let ?h = "randint_val R (c + 1) ROOM_MIN_SIZE ROOM_MAX_SIZE"
  have wr: "?w \<le> 12" and hr: "?h \<le> 12"
    using randint_val_range[of ROOM_MIN_SIZE ROOM_MAX_SIZE R]
    by (simp_all add: ROOM_MIN_SIZE_def ROOM_MAX_SIZE_def)
  with assms have "1 \<le> d_width d - ?w - 2" "1 \<le> d_height d - ?h - 2" by linarith+
  then show ?thesis
    by (simp add: try_room_def randint_def Let_def split: prod.splits)
qed

lemma place_rooms_inv:
  "place_rooms R n d c = Inr (d', c') \<Longrightarrow> gen_inv W H d \<Longrightarrow>
     gen_inv W H d' \<and> (rooms d \<noteq> [] \<longrightarrow> rooms d' \<noteq> [])"
proof (induction n arbitrary: d c)
  case 0
  then show ?case by simp
next
  case (Suc n)
  from Suc.prems(1) obtain d1 c1 where t: "try_room R d c = Inr (d1, c1)"
    and r: "place_rooms R n d1 c1 = Inr (d', c')"
    by (auto split: sum.splits)
  from try_room_cases[OF t Suc.prems(2)]
  have g1: "gen_inv W H d1" and ne: "rooms d \<noteq> [] \<longrightarrow> rooms d1 \<noteq> []" by auto
  from Suc.IH[OF r g1] ne show ?case by blast
qed

lemma place_rooms_returns:
  "15 \<le> W \<Longrightarrow> 15 \<le> H \<Longrightarrow> gen_inv W H d \<Longrightarrow>
     \<exists>d' c'. place_rooms R n d c = Inr (d', c') \<and> (0 < n \<longrightarrow> rooms d' \<noteq> [])"
proof (induction n arbitrary: d c)
  case 0
  then show ?case by simp
next
  case (Suc n)
  from Suc.prems have "15 \<le> d_width d" "15 \<le> d_height d" by (simp_all add: gen_inv_def)
  from try_room_returns[OF this, of R c]
  obtain d1 c1 where t: "try_room R d c = Inr (d1, c1)" by blast
  from try_room_cases[OF t Suc.prems(3)]
  have g1: "gen_inv W H d1" and ne: "rooms d1 \<noteq> []" by auto
  from Suc.IH[OF Suc.prems(1,2) g1, of c1]
  obtain d' c' where r: "place_rooms R n d1 c1 = Inr (d', c')" by blast
  from place_rooms_inv[OF r g1] ne have "rooms d' \<noteq> []" by blast
  with t r show ?case by simp
qed

lemma gen_inv_start:
  "gen_inv (d_width d) (d_height d) (d\<lparr>tiles := grid (d_width d) (d_height d) WALL, rooms := []\<rparr>)"
  by (simp add: gen_inv_def tiles_plain_def grid_dims_grid in_bounds_def get_grid)

lemma stairs_placed:
  assumes "tiles_plain d" and "in_bounds d cx cy"
  shows "grid_set (tiles d) cx cy STAIRS = Inr (set_cell (tiles d) cx cy STAIRS)"
    and "stairs_at (d\<lparr>tiles := set_cell (tiles d) cx cy STAIRS\<rparr>) x y \<longleftrightarrow> (x, y) = (cx, cy)"
proof -
  from assms have gd: "grid_dims (tiles d) (d_width d) (d_height d)"
    and b: "0 \<le> cx" "cx < d_width d" "0 \<le> cy" "cy < d_height d"
    by (simp_all add: tiles_plain_def in_bounds_def)
  show "grid_set (tiles d) cx cy STAIRS = Inr (set_cell (tiles d) cx cy STAIRS)"
    using gd b by (rule grid_set_in_bounds)
  show "stairs_at (d\<lparr>tiles := set_cell (tiles d) cx cy STAIRS\<rparr>) x y \<longleftrightarrow> (x, y) = (cx, cy)"
  proof (cases "in_bounds d x y")
    case True
    then have xy: "0 \<le> x" "0 \<le> y" by (simp_all add: in_bounds_def)
    from assms(1) True have "get_cell (tiles d) x y \<noteq> STAIRS"
      by (simp add: tiles_plain_def)
    with True get_set_cell[OF gd b xy, of STAIRS] show ?thesis
      by (simp add: stairs_at_def in_bounds_def)
  next
    case False
    with assms(2) show ?thesis
      by (auto simp: stairs_at_def in_bounds_def)
  qed
qed

lemma generate_returns:
  assumes "15 \<le> d_width d" "15 \<le> d_height d"
  shows "\<exists>pos d' c'. generate R d lvl c = Inr (pos, d', c') \<and> rooms d' \<noteq> []"
proof -
  let ?d0 = "d\<lparr>tiles := grid (d_width d) (d_height d) WALL, rooms := []\<rparr>"
  from place_rooms_returns[OF assms gen_inv_start, of R MAX_ROOMS c]
  obtain d1 c1 where p: "place_rooms R MAX_ROOMS ?d0 c = Inr (d1, c1)" and ne: "rooms d1 \<noteq> []"
    by (auto simp: MAX_ROOMS_def)
  from place_rooms_inv[OF p gen_inv_start]
  have g1: "gen_inv (d_width d) (d_height d) d1" by simp
  then have tp: "tiles_plain d1" by (simp add: gen_inv_def)
  obtain cx cy where cc: "center (last (rooms d1)) = (cx, cy)"
    by (cases "center (last (rooms d1))")
  from ne g1 have "center_on_grid d1 (last (rooms d1))"
    by (simp add: gen_inv_def list_all_iff)
  with cc have ib: "in_bounds d1 cx cy" by (simp add: center_on_grid_def)
  note sp = stairs_placed[OF tp ib]
  from p ne cc sp(1) show ?thesis
    by (simp add: generate_def Let_def)
qed

lemma rooms_carve: "rooms (carve d x y) = rooms d"
  by (simp add: carve_def)

lemma rooms_carve_row: "rooms (fold (\<lambda>y d''. carve d'' x y) ys d) = rooms d"
  by (induction ys arbitrary: d) (simp_all add: rooms_carve)

lemma rooms_carve_block:
  "rooms (fold (\<lambda>x d'. fold (\<lambda>y d''. carve d'' x y) ys d') xs d) = rooms d"
  by (induction xs arbitrary: d) (simp_all add: rooms_carve_row)

lemma rooms_create_room: "rooms (create_room d room) = rooms d"
  by (simp add: create_room_def rooms_carve_block split: prod.splits)

lemma try_room_first:
  assumes "try_room R d c = Inr (d', c')" and "rooms d = []"
  shows "rooms d' = [first_candidate R d c]"
  using assms
  by (auto simp: try_room_def first_candidate_def Let_def randint_def rooms_create_room
      eval_nat_numeral split: sum.splits if_splits)

lemma place_rooms_hd:
  "place_rooms R n d c = Inr (d', c') \<Longrightarrow> gen_inv W H d \<Longrightarrow> rooms d \<noteq> [] \<Longrightarrow>
     hd (rooms d') = hd (rooms d)"
proof (induction n arbitrary: d c)
  case 0
  then show ?case by simp
next
  case (Suc n)
  from Suc.prems(1) obtain d1 c1 where t: "try_room R d c = Inr (d1, c1)"
    and r: "place_rooms R n d1 c1 = Inr (d', c')"
    by (auto split: sum.splits)
  from try_room_cases[OF t Suc.prems(2)] Suc.prems(3)
  have g1: "gen_inv W H d1" and ne: "rooms d1 \<noteq> []" and h: "hd (rooms d1) = hd (rooms d)"
    by auto
  from Suc.IH[OF r g1 ne] h show ?case by simp
qed

lemma generate_unfold:
  assumes "generate R d lvl c = Inr (pos, d', c')"
  shows "\<exists>d1. place_rooms R MAX_ROOMS
             (d\<lparr>tiles := grid (d_width d) (d_height d) WALL, rooms := []\<rparr>) c = Inr (d1, c') \<and>
           rooms d' = rooms d1 \<and> (rooms d1 \<noteq> [] \<longrightarrow> pos = center (hd (rooms d1)))"
proof -
  let ?d0 = "d\<lparr>tiles := grid (d_width d) (d_height d) WALL, rooms := []\<rparr>"
  show ?thesis
  proof (cases "place_rooms R MAX_ROOMS ?d0 c")
    case (Inl e)
    with assms show ?thesis by (simp add: generate_def)
  next
    case (Inr r)
    obtain d1 c1 where r: "r = (d1, c1)" by (cases r)
    show ?thesis
    proof (cases "rooms d1 = []")
      case True
      with assms Inr r show ?thesis by (simp add: generate_def)
    next
      case False
      obtain cx cy where cc: "center (last (rooms d1)) = (cx, cy)"
        by (cases "center (last (rooms d1))")
      show ?thesis
      proof (cases "grid_set (tiles d1) cx cy STAIRS")
        case (Inl e)
        with assms Inr r False cc show ?thesis by (simp add: generate_def)
      next
        case (Inr t)
        with assms \<open>place_rooms R MAX_ROOMS ?d0 c = Inr r\<close> r False cc
        have "pos = center (hd (rooms d1))" "d' = d1\<lparr>tiles := t\<rparr>" "c' = c1"
          by (simp_all add: generate_def)
        with \<open>place_rooms R MAX_ROOMS ?d0 c = Inr r\<close> r show ?thesis by simp
      qed
    qed
  qed
qed

lemma generate_first_room:
  assumes "generate R d lvl c = Inr (pos, d', c')"
  shows "rooms d' \<noteq> [] \<and> hd (rooms d') = first_candidate R d c"
proof -
  let ?d0 = "d\<lparr>tiles := grid (d_width d) (d_height d) WALL, rooms := []\<rparr>"
  from generate_unfold[OF assms] obtain d2 where p: "place_rooms R MAX_ROOMS ?d0 c = Inr (d2, c')"
    and rs: "rooms d' = rooms d2"
    by blast
  have m: "MAX_ROOMS = Suc 14" by (simp add: MAX_ROOMS_def)
  have "\<exists>d1 c1. try_room R ?d0 c = Inr (d1, c1) \<and> place_rooms R 14 d1 c1 = Inr (d2, c')"
  proof (cases "try_room R ?d0 c")
    case (Inl e)
    with p show ?thesis unfolding m place_rooms.simps(2) by simp
  next
    case (Inr r)
    obtain d1 c1 where "r = (d1, c1)" by (cases r)
    with Inr p show ?thesis unfolding m place_rooms.simps(2) by simp
  qed
  then obtain d1 c1 where t: "try_room R ?d0 c = Inr (d1, c1)"
    and r: "place_rooms R 14 d1 c1 = Inr (d2, c')"
    by blast
  have "rooms ?d0 = []" by simp
  from try_room_first[OF t this] have r1: "rooms d1 = [first_candidate R d c]"
    by (simp add: first_candidate_def)
  from try_room_cases[OF t gen_inv_start] have g1: "gen_inv (d_width d) (d_height d) d1" by simp
  from place_rooms_hd[OF r g1] r1 have h: "hd (rooms d2) = first_candidate R d c" by simp
  from place_rooms_inv[OF r g1] r1 have ne: "rooms d2 \<noteq> []" by simp
  from ne h rs show ?thesis by simp
qed

text \<open>A call that returns has accepted a room, spawns at the first and marks the last.\<close>

lemma generate_result:
  assumes "generate R d lvl c = Inr (pos, d', c')"
  shows "rooms d' \<noteq> [] \<and> pos = center (hd (rooms d')) \<and>
         (\<forall>x y. stairs_at d' x y \<longleftrightarrow> (x, y) = center (last (rooms d')))"
proof -
  let ?d0 = "d\<lparr>tiles := grid (d_width d) (d_height d) WALL, rooms := []\<rparr>"
  from generate_first_room[OF assms] have ne': "rooms d' \<noteq> []" by simp
  from assms obtain d1 c1 where p: "place_rooms R MAX_ROOMS ?d0 c = Inr (d1, c1)"
    by (auto simp: generate_def Let_def split: sum.splits)
  from generate_unfold[OF assms] p ne' have ne: "rooms d1 \<noteq> []" by auto
  from place_rooms_inv[OF p gen_inv_start]
  have g1: "gen_inv (d_width d) (d_height d) d1" by simp
  then have tp: "tiles_plain d1" by (simp add: gen_inv_def)
  obtain cx cy where cc: "center (last (rooms d1)) = (cx, cy)"
    by (cases "center (last (rooms d1))")
  from ne g1 have "center_on_grid d1 (last (rooms d1))"
    by (simp add: gen_inv_def list_all_iff)
  with cc have ib: "in_bounds d1 cx cy" by (simp add: center_on_grid_def)
  note sp = stairs_placed[OF tp ib]
  from assms p ne cc sp(1)
  have "d' = d1\<lparr>tiles := set_cell (tiles d1) cx cy STAIRS\<rparr>" "pos = center (hd (rooms d1))"
    by (auto simp: generate_def Let_def)
  with ne cc sp(2) show ?thesis by simp
qed

text \<open>The list of rooms and the cursor follow the placement without the tiles.\<close>

lemma try_room_rooms:
  assumes "try_room R d c = Inr (d', c')" and "gen_inv W H d"
  shows "try_room_rooms R W H (rooms d) c = Inr (rooms d', c')"
proof -
  let ?w = "randint_val R c ROOM_MIN_SIZE ROOM_MAX_SIZE"
  let ?h = "randint_val R (c + 1) ROOM_MIN_SIZE ROOM_MAX_SIZE"
  have dims: "d_width d = W" "d_height d = H" and tp: "tiles_plain d"
    using assms(2) by (simp_all add: gen_inv_def)
  from assms(1) obtain x c3 where x: "randint R (c + 2) 1 (d_width d - ?w - 2) = Inr (x, c3)"
    by (auto simp: try_room_def Let_def split: sum.splits)
  with assms(1) obtain y c4 where y: "randint R c3 1 (d_height d - ?h - 2) = Inr (y, c4)"
    by (auto simp: try_room_def Let_def split: sum.splits)
  let ?new = "\<lparr>r_x = x, r_y = y, r_width = ?w, r_height = ?h\<rparr>"
  have ci: "carve_inv W H (rooms d) d"
    using tp dims by (simp add: carve_inv_def)
  let ?d1 = "create_room d ?new"
  have c1: "carve_inv W H (rooms d) ?d1"
    using ci by (rule carve_inv_create_room)
  note xy = x[unfolded dims] y[unfolded dims]
  show ?thesis
  proof (cases "list_ex (intersects ?new) (rooms d)")
    case True
    with assms(1) x y have "d' = d" "c' = c4"
      by (auto simp: try_room_def Let_def)
    with True xy show ?thesis
      by (simp add: try_room_rooms_def Let_def)
  next
    case False
    show ?thesis
    proof (cases "rooms d = []")
      case True
      then have "rooms ?d1 = []" using c1 by (simp add: carve_inv_def)
      with False assms(1) x y have "d' = ?d1\<lparr>rooms := rooms ?d1 @ [?new]\<rparr>" "c' = c4"
        by (auto simp: try_room_def Let_def)
      with False True xy \<open>rooms ?d1 = []\<close> show ?thesis
        by (simp add: try_room_rooms_def Let_def)
    next
      case ne: False
      then have r1: "rooms ?d1 \<noteq> []" and r1': "rooms ?d1 = rooms d"
        using c1 by (simp_all add: carve_inv_def)
      obtain px py where p: "center (last (rooms ?d1)) = (px, py)"
        by (cases "center (last (rooms ?d1))")
      obtain nx ny where n: "center ?new = (nx, ny)"
        by (cases "center ?new")
      let ?d2 = "(if random_unit R c4 < 1 / 2
                  then create_v_tunnel (create_h_tunnel ?d1 px nx py) py ny nx
                  else create_h_tunnel (create_v_tunnel ?d1 py ny px) px nx ny)"
      have c2: "carve_inv W H (rooms d) ?d2"
        using c1 by (simp add: carve_inv_h_tunnel carve_inv_v_tunnel)
      then have r2: "rooms ?d2 = rooms d" by (simp add: carve_inv_def)
      from False assms(1) x y r1 p n
      have "d' = ?d2\<lparr>rooms := rooms ?d2 @ [?new]\<rparr>" "c' = Suc c4"
        by (auto simp: try_room_def Let_def)
      then have "rooms d' = rooms d @ [?new]" "c' = Suc c4"
        using r2 by simp_all
      with False ne xy show ?thesis
        by (simp add: try_room_rooms_def Let_def)
    qed
  qed
qed

lemma place_rooms_rooms:
  "place_rooms R n d c = Inr (d', c') \<Longrightarrow> gen_inv W H d \<Longrightarrow>
     place_rooms_rooms R W H n (rooms d) c = Inr (rooms d', c')"
proof (induction n arbitrary: d c)
  case 0
  then show ?case by simp
next
  case (Suc n)
  from Suc.prems(1) obtain d1 c1 where t: "try_room R d c = Inr (d1, c1)"
    and r: "place_rooms R n d1 c1 = Inr (d', c')"
    by (auto split: sum.splits)
  from try_room_cases[OF t Suc.prems(2)] have g1: "gen_inv W H d1" by simp
  from Suc.IH[OF r g1] try_room_rooms[OF t Suc.prems(2)] show ?case by simp
qed

lemma generate_rooms:
  assumes "generate R d lvl c = Inr (pos, d', c')"
  shows "place_rooms_rooms R (d_width d) (d_height d) MAX_ROOMS [] c = Inr (rooms d', c')"
proof -
  from generate_unfold[OF assms] obtain d1 where
    p: "place_rooms R MAX_ROOMS
          (d\<lparr>tiles := grid (d_width d) (d_height d) WALL, rooms := []\<rparr>) c = Inr (d1, c')"
    and rs: "rooms d' = rooms d1"
    by blast
  from place_rooms_rooms[OF p gen_inv_start] rs show ?thesis by simp
qed

text \<open>
  The run of the oracle \<open>second_room_rng\<close> on the 50 by 40 grid: the first candidate is the
  room at (1, 1), the second the room at (21, 1), and the thirteen later candidates are
  again at (1, 1) and are rejected.
\<close>

lemma first_try:
  "try_room_rooms second_room_rng MAP_WIDTH MAP_HEIGHT [] 0 =
     Inr ([\<lparr>r_x = 1, r_y = 1, r_width = 5, r_height = 5\<rparr>], 4)"
  by (simp add: try_room_rooms_def randint_def randint_val_def second_room_rng_def
      MAP_WIDTH_def MAP_HEIGHT_def ROOM_MIN_SIZE_def ROOM_MAX_SIZE_def Let_def)

lemma second_try:
  "try_room_rooms second_room_rng MAP_WIDTH MAP_HEIGHT
     [\<lparr>r_x = 1, r_y = 1, r_width = 5, r_height = 5\<rparr>] 4 =
     Inr ([\<lparr>r_x = 1, r_y = 1, r_width = 5, r_height = 5\<rparr>,
           \<lparr>r_x = 21, r_y = 1, r_width = 5, r_height = 5\<rparr>], 9)"
  by (simp add: try_room_rooms_def randint_def randint_val_def second_room_rng_def
      intersects_def MAP_WIDTH_def MAP_HEIGHT_def ROOM_MIN_SIZE_def ROOM_MAX_SIZE_def Let_def)

lemma later_try:
  assumes "7 \<le> c"
  shows "try_room_rooms second_room_rng MAP_WIDTH MAP_HEIGHT
     [\<lparr>r_x = 1, r_y = 1, r_width = 5, r_height = 5\<rparr>,
      \<lparr>r_x = 21, r_y = 1, r_width = 5, r_height = 5\<rparr>] c =
     Inr ([\<lparr>r_x = 1, r_y = 1, r_width = 5, r_height = 5\<rparr>,
           \<lparr>r_x = 21, r_y = 1, r_width = 5, r_height = 5\<rparr>], c + 4)"
  using assms
  by (simp add: try_room_rooms_def randint_def randint_val_def second_room_rng_def
      intersects_def MAP_WIDTH_def MAP_HEIGHT_def ROOM_MIN_SIZE_def ROOM_MAX_SIZE_def Let_def)

lemma later_tries:
  "7 \<le> c \<Longrightarrow>
   place_rooms_rooms second_room_rng MAP_WIDTH MAP_HEIGHT n
     [\<lparr>r_x = 1, r_y = 1, r_width = 5, r_height = 5\<rparr>,
      \<lparr>r_x = 21, r_y = 1, r_width = 5, r_height = 5\<rparr>] c =
     Inr ([\<lparr>r_x = 1, r_y = 1, r_width = 5, r_height = 5\<rparr>,
           \<lparr>r_x = 21, r_y = 1, r_width = 5, r_height = 5\<rparr>], c + 4 * n)"
proof (induction n arbitrary: c)
  case 0
  show ?case by simp
next
  case (Suc n)
  from Suc.prems have "7 \<le> c + 4" by simp
  from Suc.IH[OF this] later_try[OF Suc.prems] show ?case by simp
qed

lemma two_rooms_placed:
  "place_rooms_rooms second_room_rng MAP_WIDTH MAP_HEIGHT MAX_ROOMS [] 0 =
     Inr ([\<lparr>r_x = 1, r_y = 1, r_width = 5, r_height = 5\<rparr>,
           \<lparr>r_x = 21, r_y = 1, r_width = 5, r_height = 5\<rparr>], 61)"
proof -
  have m: "MAX_ROOMS = Suc (Suc 13)" by (simp add: MAX_ROOMS_def)
  have "place_rooms_rooms second_room_rng MAP_WIDTH MAP_HEIGHT MAX_ROOMS [] 0 =
      place_rooms_rooms second_room_rng MAP_WIDTH MAP_HEIGHT 13
        [\<lparr>r_x = 1, r_y = 1, r_width = 5, r_height = 5\<rparr>,
         \<lparr>r_x = 21, r_y = 1, r_width = 5, r_height = 5\<rparr>] 9"
    by (simp only: m place_rooms_rooms.simps first_try second_try sum.case prod.case)
  then show ?thesis
    by (simp add: later_tries)
qed

text \<open>
  On a grid of 6 by 6 cells no candidate room fits: the call accepts no room, and raises
  \<open>ValueError\<close> at the draw of the first column instead of returning the centre of the grid.
\<close>

theorem generate_no_room_counterexample:
  "generate zero_rng (new_dungeon 6 6) 1 0 = Inl ValueError"
proof -
  let ?d0 = "(new_dungeon 6 6)\<lparr>tiles := grid (d_width (new_dungeon 6 6))
                 (d_height (new_dungeon 6 6)) WALL, rooms := []\<rparr>"
  have m: "MAX_ROOMS = Suc 14" by (simp add: MAX_ROOMS_def)
  have t: "try_room zero_rng ?d0 0 = Inl ValueError"
    by (simp add: try_room_def randint_def randint_val_def zero_rng_def new_dungeon_def
        ROOM_MIN_SIZE_def ROOM_MAX_SIZE_def Let_def)
  have "place_rooms zero_rng MAX_ROOMS ?d0 0 = Inl ValueError"
    unfolding m place_rooms.simps(2) t by simp
  then show ?thesis
    unfolding generate_def Let_def by (simp only: sum.case)
qed

text \<open>
  C3 (amended). On a grid of at least 15 by 15 cells \<open>generate\<close> returns. Whenever it
  returns, at least one room was accepted: the list of rooms is not empty, its first room
  is the first candidate drawn, the spawn position is the centre of that room, and a cell
  of the grid holds the stairs exactly when it is the centre of the last room. The list
  holds the accepted rooms in the order of their acceptance.
\<close>

theorem generate_spawn_and_stairs:
  "(15 \<le> d_width d \<and> 15 \<le> d_height d \<longrightarrow>
      (\<exists>pos d' c'. generate R d lvl c = Inr (pos, d', c'))) \<and>
   (\<forall>pos d' c'. generate R d lvl c = Inr (pos, d', c') \<longrightarrow>
      rooms d' \<noteq> [] \<and> hd (rooms d') = first_candidate R d c \<and>
      pos = center (hd (rooms d')) \<and>
      (\<forall>x y. stairs_at d' x y \<longleftrightarrow> (x, y) = center (last (rooms d'))))"
  using generate_returns[of d R lvl c] generate_result[of R d lvl c]
    generate_first_room[of R d lvl c]
  by blast

theorem generate_spawn_and_stairs_witness:
  "15 \<le> d_width (new_dungeon MAP_WIDTH MAP_HEIGHT) \<and>
   15 \<le> d_height (new_dungeon MAP_WIDTH MAP_HEIGHT) \<and>
   (\<exists>d' c'. generate second_room_rng (new_dungeon MAP_WIDTH MAP_HEIGHT) 1 0 = Inr ((3, 3), d', c') \<and>
      rooms d' = [\<lparr>r_x = 1, r_y = 1, r_width = 5, r_height = 5\<rparr>,
                  \<lparr>r_x = 21, r_y = 1, r_width = 5, r_height = 5\<rparr>] \<and>
      stairs_at d' 23 3 \<and> \<not> stairs_at d' 3 3)"
proof -
  let ?d = "new_dungeon MAP_WIDTH MAP_HEIGHT"
  have w: "15 \<le> d_width ?d" and h: "15 \<le> d_height ?d"
    by (simp_all add: new_dungeon_def MAP_WIDTH_def MAP_HEIGHT_def)
  from generate_spawn_and_stairs[of ?d second_room_rng 1 0] w h
  obtain pos d' c' where g: "generate second_room_rng ?d 1 0 = Inr (pos, d', c')"
    and p: "pos = center (hd (rooms d'))"
    and s: "\<forall>x y. stairs_at d' x y \<longleftrightarrow> (x, y) = center (last (rooms d'))"
    by blast
  from two_rooms_placed generate_rooms[OF g]
  have rs: "rooms d' = [\<lparr>r_x = 1, r_y = 1, r_width = 5, r_height = 5\<rparr>,
                        \<lparr>r_x = 21, r_y = 1, r_width = 5, r_height = 5\<rparr>]"
    by (simp add: new_dungeon_def)
  from p have p3: "pos = (3, 3)" by (simp add: rs center_def)
  from s have st: "stairs_at d' 23 3" "\<not> stairs_at d' 3 3"
    by (simp_all add: rs center_def)
  from w h g p3 rs st show ?thesis by blast
qed

subsection \<open>Field of view\<close>

lemma on_a_ray_iff:
  "on_a_ray T px py radius x y \<longleftrightarrow> (\<exists>a<360. \<exists>k<nat radius. ray_cell T px py a k = (x, y))"
  unfolding on_a_ray_def list_ex_iff by (simp add: Bex_def)

lemma fov_inv_mark:
  assumes inv: "fov_inv T d px py radius d'" and ib: "in_bounds d ix iy"
    and ray: "on_a_ray T px py radius ix iy"
  shows "fov_inv T d px py radius
           (d'\<lparr>visible := set_cell (visible d') ix iy True,
               explored := set_cell (explored d') ix iy True\<rparr>)"
proof -
  from inv have gv: "grid_dims (visible d') (d_width d) (d_height d)"
    and ge: "grid_dims (explored d') (d_width d) (d_height d)"
    by (simp_all add: fov_inv_def)
  from ib have b: "0 \<le> ix" "ix < d_width d" "0 \<le> iy" "iy < d_height d"
    by (simp_all add: in_bounds_def)
  have cells: "get_cell (set_cell (visible d') ix iy True) x y =
                 (if x = ix \<and> y = iy then True else get_cell (visible d') x y)"
    "get_cell (set_cell (explored d') ix iy True) x y =
                 (if x = ix \<and> y = iy then True else get_cell (explored d') x y)"
    if "in_bounds d x y" for x y
    using that get_set_cell[OF gv b, of x y True] get_set_cell[OF ge b, of x y True]
    by (simp_all add: in_bounds_def)
  show ?thesis
    using inv ray cells
    by (auto simp: fov_inv_def grid_dims_set_cell)
qed

lemma ray_pos_Suc: "ray_pos x0 dx (Suc k) = round_double (ray_pos x0 dx k + dx)"
  by (simp add: ray_pos_def)

lemma cast_ray_inf:
  "is_inf x \<or> is_inf y \<Longrightarrow> cast_ray d x y dx dy (Suc n) = Inl OverflowError"
  by (auto simp: int_of_float_def)

lemma cast_ray_Suc:
  "\<not> is_inf x \<Longrightarrow> \<not> is_inf y \<Longrightarrow>
   cast_ray d x y dx dy (Suc n) =
     (if in_bounds d (py_int x) (py_int y)
      then (if get_cell (tiles d) (py_int x) (py_int y) = WALL
            then Inr (d\<lparr>visible := set_cell (visible d) (py_int x) (py_int y) True,
                         explored := set_cell (explored d) (py_int x) (py_int y) True\<rparr>)
            else cast_ray (d\<lparr>visible := set_cell (visible d) (py_int x) (py_int y) True,
                             explored := set_cell (explored d) (py_int x) (py_int y) True\<rparr>)
                   (round_double (x + dx)) (round_double (y + dy)) dx dy n)
      else Inr d)"
  by (simp add: int_of_float_def Let_def)

text \<open>
  A ray that returns keeps the invariant, keeps every cell visible that was, and has marked
  the cell it started from, if that is on the grid.
\<close>

lemma cast_ray_inv:
  assumes t: "T a = (tx, ty)" and a: "a < 360"
  shows "cast_ray d' (ray_pos (round_double (of_int px)) (Rep_unit_float tx) j)
                     (ray_pos (round_double (of_int py)) (Rep_unit_float ty) j)
                     (Rep_unit_float tx) (Rep_unit_float ty) n = Inr d'' \<Longrightarrow>
         fov_inv T d px py radius d' \<Longrightarrow> j + n = nat radius \<Longrightarrow>
         fov_inv T d px py radius d'' \<and>
         (\<forall>u v. in_bounds d u v \<longrightarrow> get_cell (visible d') u v \<longrightarrow> get_cell (visible d'') u v) \<and>
         (n \<noteq> 0 \<longrightarrow> in_bounds d (fst (ray_cell T px py a j)) (snd (ray_cell T px py a j)) \<longrightarrow>
            get_cell (visible d'') (fst (ray_cell T px py a j)) (snd (ray_cell T px py a j)))"
proof (induction n arbitrary: d' j)
  case 0
  then show ?case by simp
next
  case (Suc n)
  let ?dx = "Rep_unit_float tx" and ?dy = "Rep_unit_float ty"
  let ?x = "ray_pos (round_double (of_int px)) ?dx j"
  let ?y = "ray_pos (round_double (of_int py)) ?dy j"
  let ?ix = "py_int ?x" and ?iy = "py_int ?y"
  have rc: "ray_cell T px py a j = (?ix, ?iy)"
    using t by (simp add: ray_cell_def)
  from Suc.prems(1) have ni: "\<not> is_inf ?x" "\<not> is_inf ?y"
    using cast_ray_inf[of ?x ?y d' ?dx ?dy n] by auto
  note unfold = cast_ray_Suc[OF ni, of d' ?dx ?dy n]
  from Suc.prems(2) have same: "in_bounds d' = in_bounds d"
    by (simp add: fov_inv_def in_bounds_def fun_eq_iff)
  show ?case
  proof (cases "in_bounds d ?ix ?iy")
    case False
    with Suc.prems(1,2) unfold same show ?thesis by (simp add: rc)
  next
    case ib: True
    have "j < nat radius" using Suc.prems(3) by simp
    with rc a have ray: "on_a_ray T px py radius ?ix ?iy"
      unfolding on_a_ray_iff by blast
    let ?d = "d'\<lparr>visible := set_cell (visible d') ?ix ?iy True,
                   explored := set_cell (explored d') ?ix ?iy True\<rparr>"
    have m: "fov_inv T d px py radius ?d"
      using Suc.prems(2) ib ray by (rule fov_inv_mark)
    from Suc.prems(2) have gv: "grid_dims (visible d') (d_width d) (d_height d)"
      and td: "tiles d' = tiles d"
      by (simp_all add: fov_inv_def)
    from ib have b: "0 \<le> ?ix" "?ix < d_width d" "0 \<le> ?iy" "?iy < d_height d"
      by (simp_all add: in_bounds_def)
    have cell: "get_cell (visible ?d) u v = (if u = ?ix \<and> v = ?iy then True else get_cell (visible d') u v)"
      if "in_bounds d u v" for u v
      using that get_set_cell[OF gv b, of u v True] by (simp add: in_bounds_def)
    show ?thesis
    proof (cases "get_cell (tiles d') ?ix ?iy = WALL")
      case True
      with Suc.prems(1) unfold same ib have "d'' = ?d" by simp
      with m cell ib show ?thesis by (simp add: rc)
    next
      case False
      with Suc.prems(1) unfold same ib
      have "cast_ray ?d (round_double (?x + ?dx)) (round_double (?y + ?dy)) ?dx ?dy n = Inr d''"
        by simp
      then have r: "cast_ray ?d (ray_pos (round_double (of_int px)) ?dx (Suc j))
                       (ray_pos (round_double (of_int py)) ?dy (Suc j)) ?dx ?dy n = Inr d''"
        by (simp only: ray_pos_Suc)
      have "Suc j + n = nat radius" using Suc.prems(3) by simp
      from Suc.IH[OF r m this]
      have i: "fov_inv T d px py radius d''"
        and k: "\<forall>u v. in_bounds d u v \<longrightarrow> get_cell (visible ?d) u v \<longrightarrow> get_cell (visible d'') u v"
        by blast+
      from i k cell ib show ?thesis by (simp add: rc)
    qed
  qed
qed

lemma cast_angle_inv:
  assumes "cast_angle T px py radius a s = Inr s1" and "a < 360"
    and "fov_inv T d px py radius s"
  shows "fov_inv T d px py radius s1 \<and>
         (\<forall>u v. in_bounds d u v \<longrightarrow> get_cell (visible s) u v \<longrightarrow> get_cell (visible s1) u v) \<and>
         (0 < radius \<longrightarrow> in_bounds d (fst (ray_cell T px py a 0)) (snd (ray_cell T px py a 0)) \<longrightarrow>
            get_cell (visible s1) (fst (ray_cell T px py a 0)) (snd (ray_cell T px py a 0)))"
proof -
  obtain tx ty where t: "T a = (tx, ty)" by (cases "T a")
  from assms(1) t
  have "cast_ray s (round_double (of_int px)) (round_double (of_int py))
          (Rep_unit_float tx) (Rep_unit_float ty) (nat radius) = Inr s1"
    by (auto simp: cast_angle_def to_double_def Let_def split: if_splits)
  then have "cast_ray s (ray_pos (round_double (of_int px)) (Rep_unit_float tx) 0)
                      (ray_pos (round_double (of_int py)) (Rep_unit_float ty) 0)
                      (Rep_unit_float tx) (Rep_unit_float ty) (nat radius) = Inr s1"
    by (simp add: ray_pos_def)
  from cast_ray_inv[OF t assms(2) this assms(3)] show ?thesis by simp
qed

lemma fold_keeps_set:
  "(\<And>x s. x \<in> set xs \<Longrightarrow> P s \<Longrightarrow> P (f x s)) \<Longrightarrow> P s \<Longrightarrow> P (fold f xs s)"
  by (induction xs arbitrary: s) simp_all

text \<open>A loop whose passes may raise: what every pass that returns keeps, the loop keeps.\<close>

lemma fold_raise:
  "fold (\<lambda>a r. case r of Inl e \<Rightarrow> Inl e | Inr s \<Rightarrow> step a s) xs (Inl e) = Inl e"
  by (induction xs) simp_all

lemma fold_result_inv:
  assumes "fold (\<lambda>a r. case r of Inl e \<Rightarrow> Inl e | Inr s \<Rightarrow> step a s) xs (Inr s0) = Inr s'"
    and "P s0"
    and "\<And>a s s1. a \<in> set xs \<Longrightarrow> P s \<Longrightarrow> step a s = Inr s1 \<Longrightarrow> P s1"
  shows "P s'"
  using assms
proof (induction xs arbitrary: s0)
  case Nil
  then show ?case by simp
next
  case (Cons a xs)
  show ?case
  proof (cases "step a s0")
    case (Inl e)
    with Cons.prems(1) show ?thesis by (simp add: fold_raise)
  next
    case (Inr s1)
    with Cons.prems(1)
    have f: "fold (\<lambda>a r. case r of Inl e \<Rightarrow> Inl e | Inr s \<Rightarrow> step a s) xs (Inr s1) = Inr s'"
      by simp
    from Cons.prems(3)[OF _ Cons.prems(2) Inr] have p1: "P s1" by simp
    show ?thesis
      by (rule Cons.IH[OF f p1]) (rule Cons.prems(3), simp_all)
  qed
qed

lemma fold_result_returns:
  assumes "\<And>a s. a \<in> set xs \<Longrightarrow> \<exists>s1. step a s = Inr s1"
  shows "\<exists>s'. fold (\<lambda>a r. case r of Inl e \<Rightarrow> Inl e | Inr s \<Rightarrow> step a s) xs (Inr s0) = Inr s'"
  using assms
proof (induction xs arbitrary: s0)
  case Nil
  then show ?case by simp
next
  case (Cons a xs)
  from Cons.prems[of a s0] obtain s1 where s1: "step a s0 = Inr s1" by auto
  from Cons.IH[of s1] Cons.prems
  obtain s' where "fold (\<lambda>a r. case r of Inl e \<Rightarrow> Inl e | Inr s \<Rightarrow> step a s) xs (Inr s1) = Inr s'"
    by auto
  with s1 show ?case by simp
qed

lemma fov_inv_start:
  assumes "grid_dims (explored d) (d_width d) (d_height d)"
  shows "fov_inv T d px py radius (d\<lparr>visible := grid (d_width d) (d_height d) False\<rparr>)"
  using assms by (simp add: fov_inv_def grid_dims_grid in_bounds_def get_grid)

lemma compute_fov_inv:
  assumes "compute_fov T d px py radius = Inr d'"
    and "grid_dims (explored d) (d_width d) (d_height d)"
  shows "fov_inv T d px py radius d'"
proof (rule fold_result_inv[where P = "fov_inv T d px py radius"
      and step = "cast_angle T px py radius", OF assms(1)[unfolded compute_fov_def]])
  show "fov_inv T d px py radius (d\<lparr>visible := grid (d_width d) (d_height d) False\<rparr>)"
    using assms(2) by (rule fov_inv_start)
next
  fix a s s1
  assume "a \<in> set [0..<360]" and s: "fov_inv T d px py radius s"
    and c: "cast_angle T px py radius a s = Inr s1"
  then have "a < 360" by simp
  from cast_angle_inv[OF c this s] show "fov_inv T d px py radius s1" by blast
qed

text \<open>
  While the origin and the radius add up to less than \<open>2\<^sup>5\<^sup>3\<close>, the position of a ray
  after \<open>k\<close> float additions is at most \<open>k\<close> away from the origin, so its cell is too.
\<close>

lemma near_small:
  assumes "near p k x" and "\<bar>p\<bar> + int k < 2 ^ 53"
  shows "\<bar>x\<bar> < 2 ^ 53"
proof -
  from assms(2) have "- (2 ^ 53) < p - int k" "p + int k < 2 ^ 53" by linarith+
  then have "(of_int (- (2 ^ 53)) :: rat) < of_int (p - int k)"
    "(of_int (p + int k) :: rat) < of_int (2 ^ 53)"
    by (simp_all only: of_int_less_iff)
  with assms(1) show ?thesis by (simp add: near_def abs_less_iff)
qed

lemma near_step:
  assumes n: "near p k x" and b: "\<bar>p\<bar> + int k + 1 < 2 ^ 53" and d: "- 1 \<le> dx" "dx \<le> 1"
  shows "near p (Suc k) (round_double (x + dx))"
proof -
  from n d have lo: "(of_int (p - int (Suc k)) :: rat) \<le> x + dx"
    and hi: "x + dx \<le> of_int (p + int (Suc k))"
    by (simp_all add: near_def)
  then have "near p (Suc k) (x + dx)" by (simp add: near_def)
  moreover from b have "\<bar>p\<bar> + int (Suc k) < 2 ^ 53" by simp
  ultimately have s: "\<bar>x + dx\<bar> < 2 ^ 53" by (rule near_small)
  from round_double_ge_int[OF s lo] round_double_le_int[OF s hi] show ?thesis
    by (simp only: near_def)
qed

lemma ray_pos_near:
  assumes d: "- 1 \<le> dx" "dx \<le> 1"
  shows "\<bar>p\<bar> + int k < 2 ^ 53 \<Longrightarrow> near p k (ray_pos (of_int p) dx k)"
proof (induction k)
  case 0
  show ?case by (simp add: near_def ray_pos_def)
next
  case (Suc k)
  from Suc.prems have "\<bar>p\<bar> + int k < 2 ^ 53" and b: "\<bar>p\<bar> + int k + 1 < 2 ^ 53" by simp_all
  from near_step[OF Suc.IH[OF this(1)] b d] show ?case
    by (simp only: ray_pos_Suc)
qed

lemma near_py_int:
  assumes "near p k x"
  shows "\<bar>py_int x - p\<bar> \<le> int k"
proof -
  from assms have lo: "(of_int (p - int k) :: rat) \<le> x" and hi: "x \<le> of_int (p + int k)"
    by (simp_all add: near_def)
  have f1: "p - int k \<le> \<lfloor>x\<rfloor>" using lo by (simp only: le_floor_iff)
  have "\<lfloor>x\<rfloor> \<le> \<lfloor>of_int (p + int k) :: rat\<rfloor>" using hi by (rule floor_mono)
  then have f2: "\<lfloor>x\<rfloor> \<le> p + int k" by (simp only: floor_of_int)
  have c1: "\<lceil>x\<rceil> \<le> p + int k" using hi by (simp only: ceiling_le_iff)
  have "\<lceil>of_int (p - int k) :: rat\<rceil> \<le> \<lceil>x\<rceil>" using lo by (rule ceiling_mono)
  then have c2: "p - int k \<le> \<lceil>x\<rceil>" by (simp only: ceiling_of_int)
  from f1 f2 c1 c2 show ?thesis
    by (auto simp: py_int_def abs_le_iff)
qed

lemma unit_float_range: "- 1 \<le> Rep_unit_float t" "Rep_unit_float t \<le> 1"
  using Rep_unit_float[of t] by simp_all

lemma ray_cell_near:
  assumes "\<bar>px\<bar> + int k < 2 ^ 53" and "\<bar>py\<bar> + int k < 2 ^ 53"
    and "ray_cell T px py a k = (x, y)"
  shows "\<bar>x - px\<bar> \<le> int k \<and> \<bar>y - py\<bar> \<le> int k"
proof -
  obtain tx ty where t: "T a = (tx, ty)" by (cases "T a")
  from assms(1,2) have "\<bar>px\<bar> < 2 ^ 53" "\<bar>py\<bar> < 2 ^ 53" by linarith+
  then have o: "round_double (of_int px) = of_int px" "round_double (of_int py) = of_int py"
    by (simp_all only: round_double_of_int)
  from assms(3) t
  have x: "x = py_int (ray_pos (of_int px) (Rep_unit_float tx) k)"
    and y: "y = py_int (ray_pos (of_int py) (Rep_unit_float ty) k)"
    by (simp_all add: ray_cell_def o)
  from near_py_int[OF ray_pos_near[OF unit_float_range assms(1)], of tx]
    near_py_int[OF ray_pos_near[OF unit_float_range assms(2)], of ty]
  show ?thesis unfolding x y by simp
qed

lemma ray_cell_origin:
  assumes "\<bar>px\<bar> < 2 ^ 53" and "\<bar>py\<bar> < 2 ^ 53"
  shows "ray_cell T px py a 0 = (px, py)"
  using assms
  by (cases "T a") (simp add: ray_cell_def ray_pos_def round_double_of_int py_int_of_int)

lemma cast_ray_returns:
  assumes d: "- 1 \<le> dx" "dx \<le> 1" "- 1 \<le> dy" "dy \<le> 1"
  shows "\<bar>px\<bar> + int (j + n) < 2 ^ 53 \<Longrightarrow> \<bar>py\<bar> + int (j + n) < 2 ^ 53 \<Longrightarrow>
     \<exists>d''. cast_ray d' (ray_pos (of_int px) dx j) (ray_pos (of_int py) dy j) dx dy n = Inr d''"
proof (induction n arbitrary: d' j)
  case 0
  show ?case by simp
next
  case (Suc n)
  let ?x = "ray_pos (of_int px) dx j" and ?y = "ray_pos (of_int py) dy j"
  from Suc.prems have bj: "\<bar>px\<bar> + int j < 2 ^ 53" "\<bar>py\<bar> + int j < 2 ^ 53" by simp_all
  from near_small[OF ray_pos_near[OF d(1,2) bj(1)] bj(1)]
    near_small[OF ray_pos_near[OF d(3,4) bj(2)] bj(2)]
  have ni: "\<not> is_inf ?x" "\<not> is_inf ?y" by (simp_all only: not_inf_small not_False_eq_True)
  from Suc.prems have b': "\<bar>px\<bar> + int (Suc j + n) < 2 ^ 53" "\<bar>py\<bar> + int (Suc j + n) < 2 ^ 53"
    by simp_all
  from Suc.IH[OF b']
  have "\<exists>d''. cast_ray d1 (round_double (?x + dx)) (round_double (?y + dy)) dx dy n = Inr d''"
    for d1
    by (simp only: ray_pos_Suc)
  then show ?case
    unfolding cast_ray_Suc[OF ni] by simp
qed

lemma cast_angle_returns:
  assumes "0 \<le> radius" and "\<bar>px\<bar> + radius < 2 ^ 53" and "\<bar>py\<bar> + radius < 2 ^ 53"
  shows "\<exists>s1. cast_angle T px py radius a s = Inr s1"
proof -
  obtain tx ty where t: "T a = (tx, ty)" by (cases "T a")
  from assms have s: "\<bar>px\<bar> < 2 ^ 53" "\<bar>py\<bar> < 2 ^ 53" by linarith+
  from assms have b: "\<bar>px\<bar> + int (0 + nat radius) < 2 ^ 53" "\<bar>py\<bar> + int (0 + nat radius) < 2 ^ 53"
    by simp_all
  from cast_ray_returns[where dx = "Rep_unit_float tx" and dy = "Rep_unit_float ty" and d' = s,
      OF unit_float_range unit_float_range b]
  show ?thesis
    by (simp add: cast_angle_def t to_double_small[OF s(1)] to_double_small[OF s(2)] ray_pos_def)
qed

lemma compute_fov_returns:
  assumes "0 \<le> radius" and "\<bar>px\<bar> + radius < 2 ^ 53" and "\<bar>py\<bar> + radius < 2 ^ 53"
  shows "\<exists>d'. compute_fov T d px py radius = Inr d'"
  unfolding compute_fov_def
  by (rule fold_result_returns[where step = "cast_angle T px py radius"])
     (rule cast_angle_returns[OF assms])

lemma compute_fov_origin:
  assumes r: "compute_fov T d px py radius = Inr d'"
    and g: "grid_dims (explored d) (d_width d) (d_height d)"
    and ib: "in_bounds d px py" and pos: "0 < radius"
    and s: "\<bar>px\<bar> < 2 ^ 53" "\<bar>py\<bar> < 2 ^ 53"
  shows "get_cell (visible d') px py"
proof -
  let ?d0 = "d\<lparr>visible := grid (d_width d) (d_height d) False\<rparr>"
  let ?step = "cast_angle T px py radius"
  let ?f = "\<lambda>a r. case r of Inl e \<Rightarrow> Inl e | Inr s \<Rightarrow> ?step a s"
  let ?Q = "\<lambda>s. fov_inv T d px py radius s \<and> get_cell (visible s) px py"
  have split: "[0..<360] = 0 # [1..<360]"
    by (simp add: upt_conv_Cons)
  have i0: "fov_inv T d px py radius ?d0" using g by (rule fov_inv_start)
  from r have f: "fold ?f [1..<360] (?step 0 ?d0) = Inr d'"
    unfolding compute_fov_def split by simp
  then obtain s1 where s1: "?step 0 ?d0 = Inr s1"
    by (cases "?step 0 ?d0") (simp_all add: fold_raise)
  from cast_angle_inv[OF s1 _ i0] ib pos have q1: "?Q s1"
    by (simp add: ray_cell_origin[OF s])
  have "?Q d'"
  proof (rule fold_result_inv[where P = ?Q and step = ?step, OF f[unfolded s1] q1])
    fix a s s2
    assume "a \<in> set [1..<360]" and q: "?Q s" and c: "?step a s = Inr s2"
    then have "a < 360" by simp
    from cast_angle_inv[OF c this] q ib show "?Q s2" by blast
  qed
  then show ?thesis by simp
qed

text \<open>
  C4. Let the explored grid have the size of the dungeon. Whenever \<open>compute_fov\<close> returns,
  every visible cell of the grid is explored and is the cell that some ray reaches in
  fewer than \<open>radius\<close> steps of float addition, and a cell is explored exactly when it was
  explored before or is visible now. The outcome does not depend on the visible grid the
  call started with. When the radius is not negative and adds up with either coordinate
  of the origin to less than \<open>2\<^sup>5\<^sup>3\<close>, the call returns, every visible cell is less than
  \<open>radius\<close> away from the origin along both axes, and the origin, if it is on the grid and
  the radius is positive, is visible.
\<close>

theorem compute_fov_containment:
  assumes "grid_dims (explored d) (d_width d) (d_height d)"
  shows
    "(\<forall>d'. compute_fov T d px py radius = Inr d' \<longrightarrow>
        (\<forall>x y. in_bounds d x y \<and> get_cell (visible d') x y \<longrightarrow>
           get_cell (explored d') x y \<and> on_a_ray T px py radius x y) \<and>
        (\<forall>x y. in_bounds d x y \<longrightarrow>
           (get_cell (explored d') x y \<longleftrightarrow>
              get_cell (explored d) x y \<or> get_cell (visible d') x y))) \<and>
     (\<forall>v. compute_fov T (d\<lparr>visible := v\<rparr>) px py radius = compute_fov T d px py radius) \<and>
     (0 \<le> radius \<and> \<bar>px\<bar> + radius < 2 ^ 53 \<and> \<bar>py\<bar> + radius < 2 ^ 53 \<longrightarrow>
        (\<exists>d'. compute_fov T d px py radius = Inr d' \<and>
           (\<forall>x y. in_bounds d x y \<and> get_cell (visible d') x y \<longrightarrow>
              \<bar>x - px\<bar> < radius \<and> \<bar>y - py\<bar> < radius) \<and>
           (in_bounds d px py \<and> 0 < radius \<longrightarrow> get_cell (visible d') px py)))"
proof (intro conjI allI impI)
  fix d' x y
  assume r: "compute_fov T d px py radius = Inr d'"
    and c: "in_bounds d x y \<and> get_cell (visible d') x y"
  from compute_fov_inv[OF r assms] c
  show "get_cell (explored d') x y" and "on_a_ray T px py radius x y"
    by (auto simp: fov_inv_def)
next
  fix d' x y
  assume r: "compute_fov T d px py radius = Inr d'" and c: "in_bounds d x y"
  from compute_fov_inv[OF r assms] c
  show "get_cell (explored d') x y \<longleftrightarrow> get_cell (explored d) x y \<or> get_cell (visible d') x y"
    by (simp add: fov_inv_def)
next
  fix v
  show "compute_fov T (d\<lparr>visible := v\<rparr>) px py radius = compute_fov T d px py radius"
    by (simp add: compute_fov_def)
next
  assume b: "0 \<le> radius \<and> \<bar>px\<bar> + radius < 2 ^ 53 \<and> \<bar>py\<bar> + radius < 2 ^ 53"
  then obtain d' where r: "compute_fov T d px py radius = Inr d'"
    using compute_fov_returns[of radius px py T d] by blast
  have inv: "fov_inv T d px py radius d'" using r assms by (rule compute_fov_inv)
  have near: "\<bar>x - px\<bar> < radius \<and> \<bar>y - py\<bar> < radius"
    if c: "in_bounds d x y \<and> get_cell (visible d') x y" for x y
  proof -
    from inv c have "on_a_ray T px py radius x y" by (auto simp: fov_inv_def)
    then obtain a k where k: "k < nat radius" and rc: "ray_cell T px py a k = (x, y)"
      unfolding on_a_ray_iff by blast
    from k b have "\<bar>px\<bar> + int k < 2 ^ 53" "\<bar>py\<bar> + int k < 2 ^ 53" by linarith+
    from ray_cell_near[OF this rc] k show ?thesis by linarith
  qed
  have origin: "get_cell (visible d') px py" if "in_bounds d px py \<and> 0 < radius"
  proof -
    from b have "\<bar>px\<bar> < 2 ^ 53" "\<bar>py\<bar> < 2 ^ 53" by linarith+
    with compute_fov_origin[OF r assms] that show ?thesis by blast
  qed
  from r near origin
  show "\<exists>d'. compute_fov T d px py radius = Inr d' \<and>
           (\<forall>x y. in_bounds d x y \<and> get_cell (visible d') x y \<longrightarrow>
              \<bar>x - px\<bar> < radius \<and> \<bar>y - py\<bar> < radius) \<and>
           (in_bounds d px py \<and> 0 < radius \<longrightarrow> get_cell (visible d') px py)"
    by blast
qed

theorem compute_fov_containment_witness:
  "grid_dims (explored (new_dungeon MAP_WIDTH MAP_HEIGHT)) MAP_WIDTH MAP_HEIGHT \<and>
   0 \<le> fov_radius \<and> \<bar>2\<bar> + fov_radius < 2 ^ 53 \<and>
   in_bounds (new_dungeon MAP_WIDTH MAP_HEIGHT) 2 2 \<and>
   in_bounds (new_dungeon MAP_WIDTH MAP_HEIGHT) 20 2 \<and>
   (\<exists>d'. compute_fov axis_trig (new_dungeon MAP_WIDTH MAP_HEIGHT) 2 2 fov_radius = Inr d' \<and>
      get_cell (visible d') 2 2 \<and> get_cell (explored d') 2 2 \<and>
      on_a_ray axis_trig 2 2 fov_radius 2 2 \<and> \<not> get_cell (visible d') 20 2)"
proof -
  let ?d = "new_dungeon MAP_WIDTH MAP_HEIGHT"
  have wh: "d_width ?d = MAP_WIDTH" "d_height ?d = MAP_HEIGHT"
    by (simp_all add: new_dungeon_def)
  have g: "grid_dims (explored ?d) (d_width ?d) (d_height ?d)"
    by (simp add: new_dungeon_def grid_dims_grid)
  have b: "in_bounds ?d 2 2" "in_bounds ?d 20 2"
    by (simp_all add: in_bounds_def new_dungeon_def MAP_WIDTH_def MAP_HEIGHT_def)
  have r: "0 \<le> fov_radius" "0 < fov_radius" "\<bar>2\<bar> + fov_radius < 2 ^ 53"
    by (simp_all add: fov_radius_def)
  note c = compute_fov_containment[OF g, of axis_trig 2 2 fov_radius]
  from c r obtain d' where d': "compute_fov axis_trig ?d 2 2 fov_radius = Inr d'"
    and near: "\<forall>x y. in_bounds ?d x y \<and> get_cell (visible d') x y \<longrightarrow>
              \<bar>x - 2\<bar> < fov_radius \<and> \<bar>y - 2\<bar> < fov_radius"
    and origin: "in_bounds ?d 2 2 \<and> 0 < fov_radius \<longrightarrow> get_cell (visible d') 2 2"
    by blast
  from origin b(1) r(2) have v: "get_cell (visible d') 2 2" by blast
  with c d' b(1) have e: "get_cell (explored d') 2 2" and o: "on_a_ray axis_trig 2 2 fov_radius 2 2"
    by blast+
  have n: "\<not> get_cell (visible d') 20 2"
  proof
    assume "get_cell (visible d') 20 2"
    with near b(2) have "\<bar>20 - 2\<bar> < fov_radius" by blast
    then show False by (simp add: fov_radius_def)
  qed
  from g b r d' v e o n show ?thesis by (auto simp: wh)
qed

subsection \<open>One entity per tile\<close>

text \<open>
  The teleport scroll moves the player to the centre of the room drawn and leaves the
  enemies where they are; the branch does not call \<open>_is_occupied\<close>.
\<close>

lemma use_item_teleport:
  assumes "0 \<le> index" and "index < int (length (inventory (player g)))"
    and "item_type (inventory (player g) ! nat index) = SCROLL_TELEPORT"
    and "rooms (dungeon g) \<noteq> []"
    and c: "center (random_choice R (rnd g) (rooms (dungeon g))) = (cx, cy)"
    and small: "\<bar>cx\<bar> + fov_radius < 2 ^ 53" "\<bar>cy\<bar> + fov_radius < 2 ^ 53"
  shows "\<exists>g'. use_item R T g index = Some (Inr g') \<and>
     (p_x (player g'), p_y (player g')) = (cx, cy) \<and> enemies g' = enemies g"
proof -
  from assms(1,2) have k: "py_pos (length (inventory (player g))) index = Inr (nat index)"
    by (simp add: py_pos_def)
  have "0 \<le> fov_radius" by (simp add: fov_radius_def)
  from compute_fov_returns[OF this small, of T "dungeon g"]
  obtain d' where "compute_fov T (dungeon g) cx cy fov_radius = Inr d'" by blast
  then show ?thesis
    using assms(1-4) k c by (simp add: use_item_def Let_def)
qed

text \<open>
  The enemy turn tests \<open>_is_occupied\<close> before it moves an enemy, and keeps the entities on
  tiles of their own.
\<close>

lemma filter_update_tiles:
  assumes "i < length xs" "P (xs ! i)" "P v"
  shows "set (map f (filter P (xs[i := v]))) \<subseteq> insert (f v) (set (map f (filter P xs)))"
  using set_update_subset_insert[of xs i v] by auto

lemma distinct_tiles_update:
  "distinct (map f (filter P xs)) \<Longrightarrow> i < length xs \<Longrightarrow> P (xs ! i) \<Longrightarrow> P v \<Longrightarrow>
     f v \<notin> f ` {x \<in> set xs. P x} \<Longrightarrow> distinct (map f (filter P (xs[i := v])))"
proof (induction xs arbitrary: i)
  case Nil
  then show ?case by simp
next
  case (Cons x xs)
  show ?case
  proof (cases i)
    case 0
    with Cons.prems show ?thesis by auto
  next
    case (Suc j)
    with Cons.prems have j: "j < length xs" "P (xs ! j)" by simp_all
    from Cons.prems(5) have nv: "f v \<notin> f ` {x \<in> set xs. P x}" by auto
    show ?thesis
    proof (cases "P x")
      case False
      with Cons.prems(1) have "distinct (map f (filter P xs))" by simp
      from Cons.IH[OF this j Cons.prems(4) nv] False Suc show ?thesis by simp
    next
      case True
      with Cons.prems(1) have d: "distinct (map f (filter P xs))"
        and nx: "f x \<notin> set (map f (filter P xs))" by simp_all
      from True Cons.prems(5) have "f v \<noteq> f x" by auto
      with nx filter_update_tiles[OF j Cons.prems(4), of f]
      have "f x \<notin> set (map f (filter P (xs[j := v])))" by auto
      with Cons.IH[OF d j Cons.prems(4) nv] True Suc show ?thesis by simp
    qed
  qed
qed

lemma enemy_act_one_per_tile:
  assumes "enemy_act R g i = Inr g'" and "one_entity_per_tile g" and "i < length (enemies g)"
  shows "one_entity_per_tile g'"
proof -
  let ?e = "enemies g ! i"
  let ?pos = "\<lambda>e. (e_x e, e_y e)"
  have moved: "one_entity_per_tile (g\<lparr>enemies := (enemies g)[i := ?e\<lparr>e_x := nx, e_y := ny\<rparr>], rnd := c\<rparr>)"
    if alive: "enemy_is_alive ?e" and free: "\<not> is_occupied g nx ny" for nx ny c
  proof -
    let ?v = "?e\<lparr>e_x := nx, e_y := ny\<rparr>"
    have av: "enemy_is_alive ?v" using alive by (simp add: enemy_is_alive_def)
    from free have np: "(nx, ny) \<noteq> (p_x (player g), p_y (player g))"
      and ne: "(nx, ny) \<notin> ?pos ` {x \<in> set (enemies g). enemy_is_alive x}"
      by (auto simp: is_occupied_def list_ex_iff)
    from assms(2) have d: "distinct (map ?pos (filter enemy_is_alive (enemies g)))"
      and pn: "(p_x (player g), p_y (player g)) \<notin> set (map ?pos (filter enemy_is_alive (enemies g)))"
      by (simp_all add: one_entity_per_tile_def entity_tiles_def)
    from ne have ne': "?pos ?v \<notin> ?pos ` {x \<in> set (enemies g). enemy_is_alive x}" by simp
    have d': "distinct (map ?pos (filter enemy_is_alive ((enemies g)[i := ?v])))"
      using d assms(3) alive av ne' by (rule distinct_tiles_update)
    from filter_update_tiles[OF assms(3) alive av, of ?pos] pn np
    have "(p_x (player g), p_y (player g)) \<notin> set (map ?pos (filter enemy_is_alive ((enemies g)[i := ?v])))"
      by auto
    with d' show ?thesis
      by (simp add: one_entity_per_tile_def entity_tiles_def)
  qed
  have same: "one_entity_per_tile h"
    if "enemies h = enemies g" "p_x (player h) = p_x (player g)" "p_y (player h) = p_y (player g)" for h
    using assms(2) that by (simp add: one_entity_per_tile_def entity_tiles_def)
  have "\<forall>g'. enemy_act R g i = Inr g' \<longrightarrow> one_entity_per_tile g'"
    using moved assms(2)
    by (auto simp: enemy_act_def Let_def intro!: same split: if_splits sum.splits prod.splits)
  with assms(1) show ?thesis by blast
qed

lemma enemy_act_length:
  "enemy_act R g i = Inr g' \<Longrightarrow> length (enemies g') = length (enemies g)"
proof -
  have "\<forall>g'. enemy_act R g i = Inr g' \<longrightarrow> length (enemies g') = length (enemies g)"
    by (auto simp: enemy_act_def Let_def split: if_splits sum.splits prod.splits)
  then show "enemy_act R g i = Inr g' \<Longrightarrow> length (enemies g') = length (enemies g)" by blast
qed

lemma enemy_turn_loop_one_per_tile:
  "enemy_turn_loop R js g = Inr g' \<Longrightarrow> one_entity_per_tile g \<Longrightarrow>
     \<forall>i\<in>set js. i < length (enemies g) \<Longrightarrow> one_entity_per_tile g'"
proof (induction js arbitrary: g)
  case Nil
  then show ?case by simp
next
  case (Cons i js)
  from Cons.prems(1) obtain g1 where a: "enemy_act R g i = Inr g1"
    and l: "enemy_turn_loop R js g1 = Inr g'"
    by (auto split: sum.splits)
  from Cons.prems(3) have i: "i < length (enemies g)" by simp
  from enemy_act_one_per_tile[OF a Cons.prems(2) i] have o: "one_entity_per_tile g1" .
  from Cons.prems(3) enemy_act_length[OF a] have "\<forall>i\<in>set js. i < length (enemies g1)" by simp
  from Cons.IH[OF l o this] show ?case .
qed

lemma enemy_turn_one_per_tile:
  "enemy_turn R g = Inr g' \<Longrightarrow> one_entity_per_tile g \<Longrightarrow> one_entity_per_tile g'"
  unfolding enemy_turn_def by (erule enemy_turn_loop_one_per_tile) simp_all

text \<open>
  C5 (the code at the two unguarded placements). A rat stands on the centre of the second
  room and no two entities share a tile; the teleport scroll draws that room and the
  player lands on the rat's tile. On level 5, with two rooms, the player stands on the
  centre of the first room, where \<open>next_level\<close> has put him; the boss is placed on the
  centre of the second-to-last room, which is the same tile.
\<close>

theorem entities_share_a_tile:
  "one_entity_per_tile teleport_game \<and>
   entity_tiles_after (use_item (const_rng 1) T teleport_game 0) = Some [(10, 3), (10, 3)] \<and>
   one_entity_per_tile boss_game \<and>
   entity_tiles (spawn_boss boss_game) = [(3, 3), (3, 3)]"
proof -
  have rs: "rooms (dungeon teleport_game) =
      [\<lparr>r_x = 1, r_y = 1, r_width = 5, r_height = 5\<rparr>, \<lparr>r_x = 8, r_y = 1, r_width = 5, r_height = 5\<rparr>]"
    "rooms (dungeon boss_game) =
      [\<lparr>r_x = 1, r_y = 1, r_width = 5, r_height = 5\<rparr>, \<lparr>r_x = 8, r_y = 1, r_width = 5, r_height = 5\<rparr>]"
    by (simp_all add: teleport_game_def boss_game_def two_rooms_def)
  have a: "one_entity_per_tile teleport_game"
    by (simp add: one_entity_per_tile_def entity_tiles_def teleport_game_def demo_game_def
        new_player_def rat_at_def enemy_is_alive_def)
  have h: "0 \<le> (0::int)" "0 < int (length (inventory (player teleport_game)))"
    "item_type (inventory (player teleport_game) ! nat 0) = SCROLL_TELEPORT"
    "rooms (dungeon teleport_game) \<noteq> []"
    by (simp_all add: rs) (simp_all add: teleport_game_def demo_game_def item_at_def)
  have ce: "center (random_choice (const_rng 1) (rnd teleport_game) (rooms (dungeon teleport_game)))
      = (10, 3)"
    by (simp add: rs random_choice_def const_rng_def center_def)
  have sm: "\<bar>10\<bar> + fov_radius < 2 ^ 53" "\<bar>3\<bar> + fov_radius < 2 ^ 53"
    by (simp_all add: fov_radius_def)
  from use_item_teleport[OF h ce sm, of T]
  obtain g' where g': "use_item (const_rng 1) T teleport_game 0 = Some (Inr g')"
    "(p_x (player g'), p_y (player g')) = (10, 3)"
    "enemies g' = enemies teleport_game"
    by blast
  from g'(2) have pos: "p_x (player g') = 10" "p_y (player g') = 3"
    by simp_all
  have b: "entity_tiles_after (use_item (const_rng 1) T teleport_game 0) = Some [(10, 3), (10, 3)]"
    unfolding g'(1) entity_tiles_after_def
    by (simp add: entity_tiles_def pos g'(3))
       (simp add: teleport_game_def rat_at_def enemy_is_alive_def)
  have c: "one_entity_per_tile boss_game"
    by (simp add: one_entity_per_tile_def entity_tiles_def boss_game_def demo_game_def)
  have d: "entity_tiles (spawn_boss boss_game) = [(3, 3), (3, 3)]"
    by (simp add: spawn_boss_def rs center_def Let_def)
       (simp add: boss_game_def demo_game_def entity_tiles_def enemy_is_alive_def new_player_def)
  from a b c d show ?thesis by blast
qed

subsection \<open>The grids keep their size\<close>

text \<open>
  The constructor allocates the three grids with the size of the dungeon, and \<open>generate\<close>
  and \<open>compute_fov\<close> keep that: the accesses under the bounds guard are in range.
\<close>

lemma grids_ok_new_dungeon: "grids_ok (new_dungeon w h)"
  by (simp add: grids_ok_def new_dungeon_def grid_dims_grid)

lemma grids_ok_compute_fov:
  assumes "compute_fov T d px py radius = Inr d'" and "grids_ok d"
  shows "grids_ok d'"
proof -
  from assms(2) have "grid_dims (explored d) (d_width d) (d_height d)"
    by (simp add: grids_ok_def)
  from compute_fov_inv[OF assms(1) this] assms(2) show ?thesis
    by (simp add: fov_inv_def grids_ok_def)
qed

lemma seen_carve: "explored (carve d x y) = explored d \<and> visible (carve d x y) = visible d"
  by (simp add: carve_def)

lemma seen_carve_row:
  "explored (fold (\<lambda>y d''. carve d'' x y) ys d) = explored d \<and>
   visible (fold (\<lambda>y d''. carve d'' x y) ys d) = visible d"
  by (induction ys arbitrary: d) (simp_all add: seen_carve)

lemma seen_carve_column:
  "explored (fold (\<lambda>x d''. carve d'' x y) xs d) = explored d \<and>
   visible (fold (\<lambda>x d''. carve d'' x y) xs d) = visible d"
  by (induction xs arbitrary: d) (simp_all add: seen_carve)

lemma seen_carve_block:
  "explored (fold (\<lambda>x d'. fold (\<lambda>y d''. carve d'' x y) ys d') xs d) = explored d \<and>
   visible (fold (\<lambda>x d'. fold (\<lambda>y d''. carve d'' x y) ys d') xs d) = visible d"
  by (induction xs arbitrary: d) (simp_all add: seen_carve_row)

lemma seen_create_room:
  "explored (create_room d room) = explored d \<and> visible (create_room d room) = visible d"
  by (simp add: create_room_def seen_carve_block split: prod.splits)

lemma seen_tunnels:
  "explored (create_h_tunnel d x1 x2 y) = explored d \<and>
   visible (create_h_tunnel d x1 x2 y) = visible d"
  "explored (create_v_tunnel d y1 y2 x) = explored d \<and>
   visible (create_v_tunnel d y1 y2 x) = visible d"
  by (simp_all add: create_h_tunnel_def create_v_tunnel_def seen_carve_row seen_carve_column)

lemma seen_try_room:
  assumes "try_room R d c = Inr (d', c')"
  shows "explored d' = explored d \<and> visible d' = visible d"
proof -
  have "\<forall>d' c'. try_room R d c = Inr (d', c') \<longrightarrow> explored d' = explored d \<and> visible d' = visible d"
    by (auto simp: try_room_def Let_def seen_create_room seen_tunnels
        split: sum.splits prod.splits if_splits)
  with assms show ?thesis by blast
qed

lemma seen_place_rooms:
  "place_rooms R n d c = Inr (d', c') \<Longrightarrow> explored d' = explored d \<and> visible d' = visible d"
proof (induction n arbitrary: d c)
  case 0
  then show ?case by simp
next
  case (Suc n)
  from Suc.prems obtain d1 c1 where t: "try_room R d c = Inr (d1, c1)"
    and r: "place_rooms R n d1 c1 = Inr (d', c')"
    by (auto split: sum.splits)
  from Suc.IH[OF r] seen_try_room[OF t] show ?case by simp
qed

lemma grid_set_dims:
  assumes "grid_set g x y v = Inr t" and "grid_dims g w h"
  shows "grid_dims t w h"
proof -
  from assms(1) obtain i j where "py_pos (length g) x = Inr i"
    "py_pos (length (g ! i)) y = Inr j" "t = g[i := (g ! i)[j := v]]"
    by (auto simp: grid_set_def py_index_def py_store_def split: sum.splits)
  with assms(2) py_pos_less[of "length g" x i] show ?thesis
    by (auto simp: grid_dims_def list_all_length nth_list_update)
qed

lemma grids_ok_generate:
  assumes "generate R d lvl c = Inr (pos, d', c')"
    and "grid_dims (explored d) (d_width d) (d_height d)"
    and "grid_dims (visible d) (d_width d) (d_height d)"
  shows "grids_ok d'"
proof -
  let ?d0 = "d\<lparr>tiles := grid (d_width d) (d_height d) WALL, rooms := []\<rparr>"
  show ?thesis
  proof (cases "place_rooms R MAX_ROOMS ?d0 c")
    case (Inl e)
    with assms(1) show ?thesis by (simp add: generate_def)
  next
    case (Inr r)
    obtain d1 c1 where r: "r = (d1, c1)" by (cases r)
    with Inr have p: "place_rooms R MAX_ROOMS ?d0 c = Inr (d1, c1)" by simp
    from place_rooms_inv[OF p gen_inv_start]
    have g1: "gen_inv (d_width d) (d_height d) d1" by simp
    then have wh: "d_width d1 = d_width d" "d_height d1 = d_height d"
      and td: "grid_dims (tiles d1) (d_width d) (d_height d)"
      by (auto simp: gen_inv_def tiles_plain_def)
    from seen_place_rooms[OF p] have seen: "explored d1 = explored d" "visible d1 = visible d"
      by simp_all
    have ok1: "grids_ok d1" using td wh seen assms(2,3) by (simp add: grids_ok_def)
    show ?thesis
    proof (cases "rooms d1 = []")
      case True
      with assms(1) p have "d' = d1" by (simp add: generate_def)
      with ok1 show ?thesis by simp
    next
      case False
      obtain cx cy where cc: "center (last (rooms d1)) = (cx, cy)"
        by (cases "center (last (rooms d1))")
      show ?thesis
      proof (cases "grid_set (tiles d1) cx cy STAIRS")
        case (Inl e)
        with assms(1) p False cc show ?thesis by (simp add: generate_def)
      next
        case (Inr t)
        with assms(1) p False cc have d': "d' = d1\<lparr>tiles := t\<rparr>"
          by (simp add: generate_def)
        from grid_set_dims[OF Inr td] ok1 show ?thesis
          unfolding d' by (simp add: grids_ok_def wh)
      qed
    qed
  qed
qed

end
